theory Spec2Isabelle
  imports Main "HOL-Library.AList" "HOL-Library.Product_Lexorder"
begin

section \<open>Data model\<close>

text \<open>
  The solver of \<^verbatim>\<open>generate.py\<close> works on a puzzle graph that the module
  \<^verbatim>\<open>crossword\<close> supplies. That module is not part of the sources, so the
  puzzle graph is a parameter of every function below.

  Python sets are lists here: the list fixes the order in which the set is iterated, and
  a list that stands for a set has no duplicates. Python dictionaries are association
  lists in insertion order, read with \<^const>\<open>map_of\<close>, written with
  \<^const>\<open>AList.update\<close> (a new key goes to the end, an old key keeps its place)
  and shrunk with \<^const>\<open>AList.delete\<close>. A subscript on a missing key raises
  \<^verbatim>\<open>KeyError\<close>, an index beyond the end of a string raises
  \<^verbatim>\<open>IndexError\<close>; both are values of the result.
\<close>

datatype error = KeyError | IndexError

datatype direction = ACROSS | DOWN

text \<open>
  Modelled from the spec: the class \<^verbatim>\<open>Variable\<close> of the module
  \<^verbatim>\<open>crossword\<close> (a slot: start cell, direction and length; two slots are
  equal when all of these agree).
\<close>

datatype variable =
  Variable (var_i: nat) (var_j: nat) (var_direction: direction) (var_length: nat)

text \<open>
  Modelled from the spec: the class \<^verbatim>\<open>Crossword\<close> of the module
  \<^verbatim>\<open>crossword\<close>, as far as the solver reads it: the set of slots, the
  vocabulary, the dictionary \<^verbatim>\<open>overlaps\<close> (a pair of slots to
  \<^verbatim>\<open>None\<close> or to a pair of offsets) and the neighbour query.
\<close>

record crossword =
  variables :: "variable list"
  words :: "string list"
  overlaps :: "variable \<times> variable \<Rightarrow> (nat \<times> nat) option option"
  neighbors :: "variable \<Rightarrow> variable list"

type_synonym domains = "(variable \<times> string list) list"

type_synonym assignment = "(variable \<times> string) list"

text \<open>\<^verbatim>\<open>__init__\<close>: every slot starts with a copy of the whole vocabulary.\<close>

definition init_domains :: "crossword \<Rightarrow> domains" where
  "init_domains cw = map (\<lambda>var. (var, words cw)) (variables cw)"

text \<open>The words of a slot's domain, as a set; a slot without an entry has none.\<close>

definition domain_of :: "domains \<Rightarrow> variable \<Rightarrow> string set" where
  "domain_of d v = (case map_of d v of None \<Rightarrow> {} | Some ws \<Rightarrow> set ws)"

section \<open>Node consistency\<close>

text \<open>
  The inner loop of \<^verbatim>\<open>enforce_node_consistency\<close>: it walks the words of
  the slot's domain and discards from the copy \<open>domain\<close> each word of the wrong length.
\<close>

fun discard_words :: "variable \<Rightarrow> string list \<Rightarrow> string list \<Rightarrow> string list" where
  "discard_words var [] domain = domain"
| "discard_words var (word # rest) domain =
     discard_words var rest
       (if length word \<noteq> var_length var then removeAll word domain else domain)"

text \<open>The outer loop, over the keys of \<^verbatim>\<open>self.domains\<close>.\<close>

fun node_consistency_loop :: "variable list \<Rightarrow> domains \<Rightarrow> domains" where
  "node_consistency_loop [] d = d"
| "node_consistency_loop (var # vars) d =
     (case map_of d var of
        None \<Rightarrow> node_consistency_loop vars d
      | Some ws \<Rightarrow> node_consistency_loop vars (AList.update var (discard_words var ws ws) d))"

definition enforce_node_consistency :: "domains \<Rightarrow> domains" where
  "enforce_node_consistency d = node_consistency_loop (remdups (map fst d)) d"

section \<open>Arc consistency\<close>

text \<open>
  The loop of \<^verbatim>\<open>revise\<close> over the words \<open>j\<close> of \<open>domains[y]\<close>, for
  one word \<open>i\<close>: it stops at the first \<open>j\<close> that differs from \<open>i\<close> and
  carries the same letter at the crossing. The test \<^verbatim>\<open>i != j and i[v1] == j[v2]\<close>
  indexes the strings only when the words differ.
\<close>

fun has_support :: "string \<Rightarrow> nat \<Rightarrow> nat \<Rightarrow> string list \<Rightarrow> error + bool" where
  "has_support i v1 v2 [] = Inr False"
| "has_support i v1 v2 (j # js) =
     (if i \<noteq> j then
        (if v1 < length i \<and> v2 < length j then
           (if i ! v1 = j ! v2 then Inr True else has_support i v1 v2 js)
         else Inl IndexError)
      else has_support i v1 v2 js)"

text \<open>
  The loop of \<^verbatim>\<open>revise\<close> over the words \<open>i\<close> of \<open>domains[x]\<close>; it
  collects the set \<^verbatim>\<open>remove\<close>. The subscript \<open>domains[y]\<close> is
  evaluated once for each \<open>i\<close>, so a missing key is noticed only when \<open>domains[x]\<close>
  has a word.
\<close>

fun revise_loop :: "nat \<Rightarrow> nat \<Rightarrow> string list \<Rightarrow> string list option \<Rightarrow> string list
    \<Rightarrow> error + string list" where
  "revise_loop v1 v2 [] dy remove = Inr remove"
| "revise_loop v1 v2 (i # rest) dy remove =
     (case dy of
        None \<Rightarrow> Inl KeyError
      | Some js \<Rightarrow>
          (case has_support i v1 v2 js of
             Inl e \<Rightarrow> Inl e
           | Inr overlaps' \<Rightarrow>
               revise_loop v1 v2 rest dy (if \<not> overlaps' then remove @ [i] else remove)))"

definition revise :: "crossword \<Rightarrow> domains \<Rightarrow> variable \<Rightarrow> variable \<Rightarrow> error + (bool \<times> domains)" where
  "revise cw d x y =
     (case overlaps cw (x, y) of
        None \<Rightarrow> Inl KeyError
      | Some None \<Rightarrow> Inr (False, d)
      | Some (Some (v1, v2)) \<Rightarrow>
          (case map_of d x of
             None \<Rightarrow> Inl KeyError
           | Some dx \<Rightarrow>
               (case revise_loop v1 v2 dx (map_of d y) [] of
                  Inl e \<Rightarrow> Inl e
                | Inr remove \<Rightarrow>
                    if remove \<noteq> []
                    then Inr (True, AList.update x (filter (\<lambda>w. w \<notin> set remove) dx) d)
                    else Inr (False, d))))"

text \<open>
  The worklist of \<^verbatim>\<open>ac3\<close> is a deque filled with \<^verbatim>\<open>appendleft\<close>
  and emptied with \<^verbatim>\<open>pop\<close>, which takes the rightmost element: the list
  below keeps the arcs in the order in which they will be popped, so
  \<^verbatim>\<open>appendleft\<close> adds at the end of the list. The loop may run any number
  of times, so it is a partial function: \<open>None\<close> would mean that it never returns.
\<close>

partial_function (option) ac3_loop ::
    "crossword \<Rightarrow> (variable \<times> variable) list \<Rightarrow> domains \<Rightarrow> (error + bool \<times> domains) option" where
  "ac3_loop cw arcs d =
     (case arcs of
        [] \<Rightarrow> Some (Inr (True, d))
      | (x, y) # rest \<Rightarrow>
          (case revise cw d x y of
             Inl e \<Rightarrow> Some (Inl e)
           | Inr (revised, d') \<Rightarrow>
               if revised then
                 (case map_of d' x of
                    None \<Rightarrow> Some (Inl KeyError)
                  | Some dx \<Rightarrow>
                      if length dx = 0 then Some (Inr (False, d'))
                      else ac3_loop cw
                             (rest @ map (\<lambda>z. (z, x)) (removeAll y (neighbors cw x))) d')
               else ac3_loop cw rest d'))"

declare ac3_loop.simps [code]

text \<open>All arcs of the problem, in the order in which \<^verbatim>\<open>ac3\<close> enqueues them.\<close>

definition all_arcs :: "crossword \<Rightarrow> (variable \<times> variable) list" where
  "all_arcs cw = concat (map (\<lambda>v1. map (\<lambda>v2. (v1, v2)) (neighbors cw v1)) (variables cw))"

definition ac3 :: "crossword \<Rightarrow> domains \<Rightarrow> (variable \<times> variable) list option
    \<Rightarrow> (error + bool \<times> domains) option" where
  "ac3 cw d arcs =
     ac3_loop cw (case arcs of None \<Rightarrow> all_arcs cw | Some given \<Rightarrow> rev given) d"

section \<open>Assignments\<close>

definition assignment_complete :: "crossword \<Rightarrow> assignment \<Rightarrow> bool" where
  "assignment_complete cw a = list_all (\<lambda>variable. map_of a variable \<noteq> None) (variables cw)"

text \<open>
  The inner loop of \<^verbatim>\<open>consistent\<close>, for one item \<open>(x, i)\<close> of the
  assignment; \<open>Inr True\<close> means that the loop ended without returning.
\<close>

fun consistent_inner :: "crossword \<Rightarrow> variable \<Rightarrow> string \<Rightarrow> assignment \<Rightarrow> error + bool" where
  "consistent_inner cw x i [] = Inr True"
| "consistent_inner cw x i ((y, j) # rest) =
     (if x \<noteq> y then
        (if i = j then Inr False
         else
           (case overlaps cw (x, y) of
              None \<Rightarrow> Inl KeyError
            | Some None \<Rightarrow> consistent_inner cw x i rest
            | Some (Some (a, b)) \<Rightarrow>
                if a < length i \<and> b < length j then
                  (if i ! a \<noteq> j ! b then Inr False else consistent_inner cw x i rest)
                else Inl IndexError))
      else consistent_inner cw x i rest)"

fun consistent_outer :: "crossword \<Rightarrow> assignment \<Rightarrow> assignment \<Rightarrow> error + bool" where
  "consistent_outer cw [] assignment = Inr True"
| "consistent_outer cw ((x, i) # rest) assignment =
     (if var_length x \<noteq> length i then Inr False
      else
        (case consistent_inner cw x i assignment of
           Inl e \<Rightarrow> Inl e
         | Inr ok \<Rightarrow> if ok then consistent_outer cw rest assignment else Inr False))"

definition consistent :: "crossword \<Rightarrow> assignment \<Rightarrow> error + bool" where
  "consistent cw assignment = consistent_outer cw assignment assignment"

section \<open>Heuristics\<close>

text \<open>
  \<^verbatim>\<open>order_domain_values\<close>: the neighbours of the slot that are keys of the
  assignment are removed, then every word of the slot's domain is counted against every
  word of every remaining neighbour.
\<close>

fun remove_assigned :: "variable list \<Rightarrow> variable list \<Rightarrow> variable list" where
  "remove_assigned [] neighbors' = neighbors'"
| "remove_assigned (variable # rest) neighbors' =
     remove_assigned rest
       (if variable \<in> set neighbors' then removeAll variable neighbors' else neighbors')"

fun count_words :: "(nat \<times> nat) option option \<Rightarrow> string \<Rightarrow> string list \<Rightarrow> nat \<Rightarrow> error + nat" where
  "count_words overlap word [] ruled_out = Inr ruled_out"
| "count_words overlap word (word2 # rest) ruled_out =
     (case overlap of
        None \<Rightarrow> Inl KeyError
      | Some None \<Rightarrow> count_words overlap word rest ruled_out
      | Some (Some (a, b)) \<Rightarrow>
          if a < length word \<and> b < length word2 then
            count_words overlap word rest
              (if word ! a \<noteq> word2 ! b then ruled_out + 1 else ruled_out)
          else Inl IndexError)"

fun count_neighbors :: "crossword \<Rightarrow> domains \<Rightarrow> variable \<Rightarrow> string \<Rightarrow> variable list \<Rightarrow> nat
    \<Rightarrow> error + nat" where
  "count_neighbors cw d var word [] ruled_out = Inr ruled_out"
| "count_neighbors cw d var word (neighbor # rest) ruled_out =
     (case map_of d neighbor of
        None \<Rightarrow> Inl KeyError
      | Some ws \<Rightarrow>
          (case count_words (overlaps cw (var, neighbor)) word ws ruled_out of
             Inl e \<Rightarrow> Inl e
           | Inr n \<Rightarrow> count_neighbors cw d var word rest n))"

fun ruled_out_list :: "crossword \<Rightarrow> domains \<Rightarrow> variable \<Rightarrow> variable list \<Rightarrow> string list
    \<Rightarrow> (string \<times> nat) list \<Rightarrow> error + (string \<times> nat) list" where
  "ruled_out_list cw d var neighbors' [] result = Inr result"
| "ruled_out_list cw d var neighbors' (word # rest) result =
     (case count_neighbors cw d var word neighbors' 0 of
        Inl e \<Rightarrow> Inl e
      | Inr n \<Rightarrow> ruled_out_list cw d var neighbors' rest (result @ [(word, n)]))"

definition order_domain_values :: "crossword \<Rightarrow> domains \<Rightarrow> variable \<Rightarrow> assignment
    \<Rightarrow> error + string list" where
  "order_domain_values cw d var assignment =
     (let neighbors' = remove_assigned (map fst assignment) (neighbors cw var) in
      case map_of d var of
        None \<Rightarrow> Inl KeyError
      | Some ws \<Rightarrow>
          (case ruled_out_list cw d var neighbors' ws [] of
             Inl e \<Rightarrow> Inl e
           | Inr result \<Rightarrow> Inr (map fst (sort_key snd result))))"

text \<open>
  \<^verbatim>\<open>select_unassigned_variable\<close>: the unassigned slots with the size of
  their domain and the number of their neighbours, sorted (stably) by the key
  \<^verbatim>\<open>(x[1], -x[2])\<close>; the first one is returned.
\<close>

fun potential_variables :: "crossword \<Rightarrow> domains \<Rightarrow> assignment \<Rightarrow> variable list
    \<Rightarrow> (variable \<times> nat \<times> nat) list \<Rightarrow> error + (variable \<times> nat \<times> nat) list" where
  "potential_variables cw d assignment [] acc = Inr acc"
| "potential_variables cw d assignment (variable # rest) acc =
     (if map_of assignment variable = None then
        (case map_of d variable of
           None \<Rightarrow> Inl KeyError
         | Some ws \<Rightarrow>
             potential_variables cw d assignment rest
               (acc @ [(variable, length ws, length (neighbors cw variable))]))
      else potential_variables cw d assignment rest acc)"

definition sort_key_of :: "variable \<times> nat \<times> nat \<Rightarrow> nat \<times> int" where
  "sort_key_of x = (fst (snd x), - int (snd (snd x)))"

definition select_unassigned_variable :: "crossword \<Rightarrow> domains \<Rightarrow> assignment
    \<Rightarrow> error + variable option" where
  "select_unassigned_variable cw d assignment =
     (case potential_variables cw d assignment (variables cw) [] of
        Inl e \<Rightarrow> Inl e
      | Inr ps \<Rightarrow>
          if ps \<noteq> [] then Inr (Some (fst (hd (sort_key sort_key_of ps)))) else Inr None)"

section \<open>Backtracking search\<close>

text \<open>
  The assignment is one dictionary that \<^verbatim>\<open>backtrack\<close> and all its recursive
  calls mutate, so every call returns the dictionary as it leaves it, next to its result.
  Python's test \<^verbatim>\<open>if result\<close> holds for a dictionary that is not empty.
\<close>

type_synonym outcome = "(error + assignment option \<times> assignment) option"

definition truthy :: "assignment option \<Rightarrow> bool" where
  "truthy result = (case result of None \<Rightarrow> False | Some a \<Rightarrow> a \<noteq> [])"

text \<open>
  The \<^verbatim>\<open>for\<close> loop of \<^verbatim>\<open>backtrack\<close> over the ordered values;
  \<open>self_backtrack\<close> is the recursive call. The slot is removed again in the
  \<^verbatim>\<open>else\<close> branch of the consistency test only.
\<close>

fun backtrack_loop :: "(assignment \<Rightarrow> outcome) \<Rightarrow> crossword \<Rightarrow> variable \<Rightarrow> string list
    \<Rightarrow> assignment \<Rightarrow> outcome" where
  "backtrack_loop self_backtrack cw var [] assignment = Some (Inr (None, assignment))"
| "backtrack_loop self_backtrack cw var (value # rest) assignment =
     (let assignment1 = AList.update var value assignment in
      case consistent cw assignment1 of
        Inl e \<Rightarrow> Some (Inl e)
      | Inr ok \<Rightarrow>
          if ok then
            (case self_backtrack assignment1 of
               None \<Rightarrow> None
             | Some (Inl e) \<Rightarrow> Some (Inl e)
             | Some (Inr (result, assignment2)) \<Rightarrow>
                 if truthy result then Some (Inr (result, assignment2))
                 else backtrack_loop self_backtrack cw var rest assignment2)
          else backtrack_loop self_backtrack cw var rest (AList.delete var assignment1))"

text \<open>
  \<^verbatim>\<open>backtrack\<close>, with a bound \<open>fuel\<close> on the depth of the recursion:
  \<open>None\<close> means that the bound was reached. When no slot is unassigned the selection
  returns \<^verbatim>\<open>None\<close>, and \<^verbatim>\<open>self.domains[None]\<close> has no such key.
\<close>

fun backtrack :: "nat \<Rightarrow> crossword \<Rightarrow> domains \<Rightarrow> assignment \<Rightarrow> outcome" where
  "backtrack 0 cw d assignment = None"
| "backtrack (Suc fuel) cw d assignment =
     (if assignment_complete cw assignment then Some (Inr (Some assignment, assignment))
      else
        (case select_unassigned_variable cw d assignment of
           Inl e \<Rightarrow> Some (Inl e)
         | Inr None \<Rightarrow> Some (Inl KeyError)
         | Inr (Some var) \<Rightarrow>
             (case order_domain_values cw d var assignment of
                Inl e \<Rightarrow> Some (Inl e)
              | Inr vals \<Rightarrow>
                  backtrack_loop (\<lambda>a. backtrack fuel cw d a) cw var vals assignment)))"

text \<open>
  \<^verbatim>\<open>solve\<close>: node consistency, arc consistency (its result is dropped), then
  the search from the empty assignment. The result comes with the domains as the call
  leaves them.
\<close>

definition solve :: "nat \<Rightarrow> crossword \<Rightarrow> domains
    \<Rightarrow> (error + assignment option \<times> domains) option" where
  "solve fuel cw d =
     (let d1 = enforce_node_consistency d in
      case ac3 cw d1 None of
        None \<Rightarrow> None
      | Some (Inl e) \<Rightarrow> Some (Inl e)
      | Some (Inr (arc_consistent, d2)) \<Rightarrow>
          (case backtrack fuel cw d2 [] of
             None \<Rightarrow> None
           | Some (Inl e) \<Rightarrow> Some (Inl e)
           | Some (Inr (result, assignment)) \<Rightarrow> Some (Inr (result, d2))))"

section \<open>Notions of the specification\<close>

text \<open>
  A word \<open>i\<close> of one slot is supported by the words \<open>js\<close> of a crossing slot when
  some other word carries the same letter at the crossing.
\<close>

definition supported :: "nat \<Rightarrow> nat \<Rightarrow> string \<Rightarrow> string list \<Rightarrow> bool" where
  "supported a b i js = (\<exists>j\<in>set js. i \<noteq> j \<and> a < length i \<and> b < length j \<and> i ! a = j ! b)"

text \<open>The number of candidate words in the whole store: what the worklist loop decreases.\<close>

definition total_size :: "domains \<Rightarrow> nat" where
  "total_size d = sum_list (map (\<lambda>p. length (snd p)) d)"

text \<open>Arc consistency of the arc \<open>(x, y)\<close>, as the data model of the specification states it.\<close>

definition arc_consistent :: "crossword \<Rightarrow> domains \<Rightarrow> variable \<Rightarrow> variable \<Rightarrow> bool" where
  "arc_consistent cw d x y =
     (case overlaps cw (x, y) of
        Some (Some (a, b)) \<Rightarrow>
          (\<forall>w\<in>domain_of d x. \<exists>w'\<in>domain_of d y.
              w \<noteq> w' \<and> a < length w \<and> b < length w' \<and> w ! a = w' ! b)
      | _ \<Rightarrow> True)"

text \<open>
  Modelled from the spec: the invariants of the puzzle graph that the module
  \<^verbatim>\<open>crossword\<close> guarantees. Neighbours are other slots of the puzzle, the
  neighbour relation is symmetric, and the overlap of \<open>(y, x)\<close> is the overlap of
  \<open>(x, y)\<close> with its offsets swapped.
\<close>

definition symmetric_graph :: "crossword \<Rightarrow> bool" where
  "symmetric_graph cw =
     (\<forall>x\<in>set (variables cw). \<forall>y\<in>set (neighbors cw x).
        y \<in> set (variables cw) \<and> x \<noteq> y \<and> x \<in> set (neighbors cw y) \<and>
        (case overlaps cw (x, y) of
           Some (Some (a, b)) \<Rightarrow> overlaps cw (y, x) = Some (Some (b, a))
         | _ \<Rightarrow> True))"

text \<open>The arcs of the problem: the ordered pairs of neighbouring slots.\<close>

definition graph_arcs :: "crossword \<Rightarrow> (variable \<times> variable) set" where
  "graph_arcs cw = {(u, v). u \<in> set (variables cw) \<and> v \<in> set (neighbors cw u)}"

text \<open>The size of a slot's domain, as \<^verbatim>\<open>len(self.domains[v])\<close> reads it.\<close>

definition domain_size :: "domains \<Rightarrow> variable \<Rightarrow> nat" where
  "domain_size d v = (case map_of d v of None \<Rightarrow> 0 | Some ws \<Rightarrow> length ws)"

text \<open>
  A complete assignment that satisfies all constraints of the puzzle: every slot holds a
  word of the vocabulary of the slot's length, no two slots hold the same word, and two
  slots that overlap agree at the crossing.
\<close>

definition is_solution :: "crossword \<Rightarrow> assignment \<Rightarrow> bool" where
  "is_solution cw a =
     list_all (\<lambda>x. case map_of a x of
         None \<Rightarrow> False
       | Some i \<Rightarrow>
           i \<in> set (words cw) \<and> length i = var_length x \<and>
           list_all (\<lambda>y. case map_of a y of
               None \<Rightarrow> False
             | Some j \<Rightarrow>
                 x = y \<or>
                 (i \<noteq> j \<and>
                  (case overlaps cw (x, y) of
                     Some (Some (p, q)) \<Rightarrow> p < length i \<and> q < length j \<and> i ! p = j ! q
                   | _ \<Rightarrow> True))) (variables cw)) (variables cw)"

section \<open>A puzzle of two crossing slots\<close>

text \<open>
  An across slot and a down slot of length 3, the second letter of the first being the
  first letter of the second.
\<close>

definition slot_a :: variable where "slot_a = Variable 0 0 ACROSS 3"
definition slot_b :: variable where "slot_b = Variable 0 1 DOWN 3"

definition cross_overlaps :: "variable \<times> variable \<Rightarrow> (nat \<times> nat) option option" where
  "cross_overlaps p =
     (if p = (slot_a, slot_b) then Some (Some (1, 0))
      else if p = (slot_b, slot_a) then Some (Some (0, 1))
      else None)"

definition cross_puzzle :: crossword where
  "cross_puzzle =
     \<lparr> variables = [slot_a, slot_b],
       words = [''CAT'', ''ACT'', ''DOG'', ''OX''],
       overlaps = cross_overlaps,
       neighbors = (\<lambda>v. if v = slot_a then [slot_b] else if v = slot_b then [slot_a] else []) \<rparr>"

definition cross_domains :: domains where
  "cross_domains = [(slot_a, [''CAT'', ''ACT'', ''DOG'']), (slot_b, [''CAT'', ''ACT'', ''DOG''])]"

text \<open>
  The same two crossing slots with a vocabulary that has no word of length 3: node
  consistency leaves both domains empty.
\<close>

definition ox_puzzle :: crossword where
  "ox_puzzle =
     \<lparr> variables = [slot_a, slot_b],
       words = [''OX''],
       overlaps = cross_overlaps,
       neighbors = (\<lambda>v. if v = slot_a then [slot_b] else if v = slot_b then [slot_a] else []) \<rparr>"

text \<open>A puzzle graph without slots.\<close>

definition empty_puzzle :: crossword where
  "empty_puzzle = \<lparr> variables = [], words = [''CAT'', ''DOG''], overlaps = (\<lambda>p. None),
      neighbors = (\<lambda>v. []) \<rparr>"

section \<open>A puzzle of five slots\<close>

text \<open>
  The grid has three rows and five columns: an across slot fills the top row, down slots
  of length 3 hang from its first and last cell and one of length 2 from its middle cell,
  and an across slot of length 2 starts at the last cell of the left down slot.
  \<open>comb_domains\<close> are the domains after node and arc consistency.
\<close>

definition slot_top :: variable where "slot_top = Variable 0 0 ACROSS 5"
definition slot_left :: variable where "slot_left = Variable 0 0 DOWN 3"
definition slot_right :: variable where "slot_right = Variable 0 4 DOWN 3"
definition slot_mid :: variable where "slot_mid = Variable 0 2 DOWN 2"
definition slot_foot :: variable where "slot_foot = Variable 2 0 ACROSS 2"

definition comb_slots :: "variable list" where
  "comb_slots = [slot_top, slot_left, slot_right, slot_mid, slot_foot]"

definition comb_overlaps :: "variable \<times> variable \<Rightarrow> (nat \<times> nat) option option" where
  "comb_overlaps p =
     (if fst p \<noteq> snd p \<and> fst p \<in> set comb_slots \<and> snd p \<in> set comb_slots then
        Some (map_of
          [((slot_top, slot_left), (0, 0)), ((slot_left, slot_top), (0, 0)),
           ((slot_top, slot_mid), (2, 0)), ((slot_mid, slot_top), (0, 2)),
           ((slot_top, slot_right), (4, 0)), ((slot_right, slot_top), (0, 4)),
           ((slot_left, slot_foot), (2, 0)), ((slot_foot, slot_left), (0, 2))] p)
      else None)"

definition comb_puzzle :: crossword where
  "comb_puzzle =
     \<lparr> variables = comb_slots,
       words = [''ARENA'', ''BISON'', ''ACT'', ''BOA'', ''NET'',
                ''EH'', ''EM'', ''EX'', ''SO'', ''AD'', ''AM'', ''TO''],
       overlaps = comb_overlaps,
       neighbors = (\<lambda>v. filter (\<lambda>w. case comb_overlaps (v, w) of
                                       Some (Some ab) \<Rightarrow> True | _ \<Rightarrow> False) comb_slots) \<rparr>"

definition comb_domains :: domains where
  "comb_domains =
     [(slot_top, [''ARENA'', ''BISON'']),
      (slot_left, [''ACT'', ''BOA'']),
      (slot_right, [''ACT'', ''NET'']),
      (slot_mid, [''EH'', ''EM'', ''EX'', ''SO'']),
      (slot_foot, [''AD'', ''AM'', ''TO''])]"

section \<open>Node consistency: the postcondition\<close>

lemma discard_words_filter:
  "discard_words var ws dm = filter (\<lambda>w. length w = var_length var \<or> w \<notin> set ws) dm"
proof (induction ws arbitrary: dm)
  case Nil
  then show ?case by simp
next
  case (Cons word rest)
  show ?case
    by (auto simp: Cons.IH removeAll_filter_not_eq intro!: filter_cong)
qed

lemma discard_words_self:
  "discard_words var ws ws = filter (\<lambda>w. length w = var_length var) ws"
  unfolding discard_words_filter by (rule filter_cong) auto

lemma node_consistency_loop_keys:
  "map fst (node_consistency_loop vars d) = map fst d"
proof (induction vars arbitrary: d)
  case Nil
  then show ?case by simp
next
  case (Cons var vars)
  show ?case
  proof (cases "map_of d var")
    case None
    then show ?thesis by (simp add: Cons.IH)
  next
    case (Some ws)
    then have "var \<in> fst ` set d" by (metis map_of_eq_None_iff option.distinct(1))
    then show ?thesis using Some by (simp add: Cons.IH update_keys)
  qed
qed

lemma node_consistency_loop_map_of:
  "map_of (node_consistency_loop vars d) s =
     (if s \<in> set vars then map_option (filter (\<lambda>w. length w = var_length s)) (map_of d s)
      else map_of d s)"
proof (induction vars arbitrary: d)
  case Nil
  then show ?case by simp
next
  case (Cons var vars)
  show ?case
  proof (cases "map_of d var")
    case None
    then show ?thesis by (auto simp: Cons.IH)
  next
    case (Some ws)
    then show ?thesis
      by (auto simp: Cons.IH update_conv' discard_words_self)
  qed
qed

text \<open>
  Claim C7. After \<^verbatim>\<open>enforce_node_consistency\<close> the domain of every slot
  \<open>s\<close> holds exactly the words it held before whose length is the length of \<open>s\<close>
  (they even keep their order), and the domain store has the same keys in the same
  order: nothing else changes.
\<close>

theorem enforce_node_consistency_post:
  "map_of (enforce_node_consistency d) s =
     map_option (filter (\<lambda>w. length w = var_length s)) (map_of d s)
   \<and> domain_of (enforce_node_consistency d) s = {w \<in> domain_of d s. length w = var_length s}
   \<and> map fst (enforce_node_consistency d) = map fst d"
proof -
  have m: "map_of (enforce_node_consistency d) s =
     map_option (filter (\<lambda>w. length w = var_length s)) (map_of d s)"
  proof (cases "map_of d s")
    case None
    then show ?thesis
      by (simp add: enforce_node_consistency_def node_consistency_loop_map_of)
  next
    case (Some ws)
    then have "s \<in> fst ` set d" by (metis map_of_eq_None_iff option.distinct(1))
    then show ?thesis
      by (simp add: enforce_node_consistency_def node_consistency_loop_map_of)
  qed
  have k: "map fst (enforce_node_consistency d) = map fst d"
    by (simp add: enforce_node_consistency_def node_consistency_loop_keys)
  have s: "domain_of (enforce_node_consistency d) s = {w \<in> domain_of d s. length w = var_length s}"
    unfolding domain_of_def m by (cases "map_of d s") auto
  from m s k show ?thesis by blast
qed

section \<open>Revision\<close>

lemma has_support_Inr:
  "has_support i a b js = Inr r \<Longrightarrow> r = supported a b i js"
  unfolding supported_def
  by (induction js) (auto split: if_splits)

lemma has_support_total:
  "\<forall>j\<in>set js. i \<noteq> j \<longrightarrow> a < length i \<and> b < length j \<Longrightarrow>
     has_support i a b js = Inr (\<exists>j\<in>set js. i \<noteq> j \<and> i ! a = j ! b)"
  by (induction js) auto

lemma revise_loop_Inr:
  "revise_loop a b dx (Some dy) acc = Inr rem \<Longrightarrow>
     rem = acc @ filter (\<lambda>i. \<not> supported a b i dy) dx"
proof (induction dx arbitrary: acc)
  case Nil
  then show ?case by simp
next
  case (Cons i rest)
  from Cons.prems obtain r where r: "has_support i a b dy = Inr r"
    by (auto split: sum.splits)
  then have s: "r = supported a b i dy" by (rule has_support_Inr)
  from Cons.prems r
  have "revise_loop a b rest (Some dy) (if \<not> r then acc @ [i] else acc) = Inr rem"
    by simp
  then have "rem = (if \<not> r then acc @ [i] else acc) @ filter (\<lambda>i. \<not> supported a b i dy) rest"
    by (rule Cons.IH)
  with s show ?case by simp
qed

lemma revise_loop_None:
  "revise_loop a b dx None acc = Inr rem \<Longrightarrow> dx = [] \<and> rem = acc"
  by (cases dx) auto

lemma revise_loop_total:
  "\<forall>i\<in>set dx. \<forall>j\<in>set dy. i \<noteq> j \<longrightarrow> a < length i \<and> b < length j \<Longrightarrow>
     revise_loop a b dx (Some dy) acc =
       Inr (acc @ filter (\<lambda>i. \<not> (\<exists>j\<in>set dy. i \<noteq> j \<and> i ! a = j ! b)) dx)"
proof (induction dx arbitrary: acc)
  case Nil
  then show ?case by simp
next
  case (Cons i rest)
  have "has_support i a b dy = Inr (\<exists>j\<in>set dy. i \<noteq> j \<and> i ! a = j ! b)"
    using Cons.prems by (intro has_support_total) auto
  moreover have "\<forall>i\<in>set rest. \<forall>j\<in>set dy. i \<noteq> j \<longrightarrow> a < length i \<and> b < length j"
    using Cons.prems by auto
  ultimately show ?case
    by (simp add: Cons.IH)
qed

lemma filter_not_removed:
  "filter (\<lambda>w. w \<notin> set (filter (\<lambda>i. \<not> P i) dx)) dx = filter P dx"
  by (rule filter_cong) auto

text \<open>What a call of revise that returns has done.\<close>

lemma revise_Inr:
  assumes "revise cw d x y = Inr (r, d')"
  shows "(overlaps cw (x, y) = Some None \<and> \<not> r \<and> d' = d) \<or>
         (\<exists>a b dx. overlaps cw (x, y) = Some (Some (a, b)) \<and> map_of d x = Some dx \<and>
            ((dx = [] \<and> \<not> r \<and> d' = d) \<or>
             (\<exists>dy. map_of d y = Some dy \<and>
                r = (\<exists>i\<in>set dx. \<not> supported a b i dy) \<and>
                d' = (if r then AList.update x (filter (\<lambda>i. supported a b i dy) dx) d else d))))"
proof (cases "overlaps cw (x, y)")
  case None
  with assms show ?thesis by (simp add: revise_def)
next
  case (Some ov)
  show ?thesis
  proof (cases ov)
    case None
    with Some assms show ?thesis by (auto simp: revise_def)
  next
    case ab: (Some p)
    obtain a b where p: "p = (a, b)" by (cases p)
    from assms Some ab p obtain dx where dx: "map_of d x = Some dx"
      by (auto simp: revise_def split: option.splits)
    from assms Some ab p dx obtain rem where
      rem: "revise_loop a b dx (map_of d y) [] = Inr rem"
      and res: "(r, d') = (if rem \<noteq> [] then (True, AList.update x (filter (\<lambda>w. w \<notin> set rem) dx) d)
                 else (False, d))"
      by (auto simp: revise_def split: sum.splits if_splits)
    show ?thesis
    proof (cases "map_of d y")
      case None
      with rem have "dx = []" "rem = []" using revise_loop_None by auto
      with res Some ab p dx show ?thesis by auto
    next
      case dy: (Some dy)
      with rem have r1: "rem = filter (\<lambda>i. \<not> supported a b i dy) dx"
        using revise_loop_Inr by fastforce
      have r2: "(rem \<noteq> []) = (\<exists>i\<in>set dx. \<not> supported a b i dy)"
        unfolding r1 by (auto simp: filter_empty_conv)
      have r3: "filter (\<lambda>w. w \<notin> set rem) dx = filter (\<lambda>i. supported a b i dy) dx"
        unfolding r1 by (rule filter_not_removed)
      from res r2 r3 Some ab p dx dy show ?thesis
        by (auto split: if_splits)
    qed
  qed
qed

lemma revise_False_same: "revise cw d x y = Inr (False, d') \<Longrightarrow> d' = d"
  by (drule revise_Inr) auto

lemma total_size_update:
  "map_of d x = Some dx \<Longrightarrow> total_size (AList.update x ws d) + length dx = total_size d + length ws"
  by (induction d) (auto simp: total_size_def)

lemma revise_True_smaller:
  assumes "revise cw d x y = Inr (True, d')"
  shows "total_size d' < total_size d"
proof -
  have "\<exists>a b dx dy. map_of d x = Some dx \<and> (\<exists>i\<in>set dx. \<not> supported a b i dy) \<and>
          d' = AList.update x (filter (\<lambda>i. supported a b i dy) dx) d"
    using revise_Inr[OF assms] by (elim disjE exE conjE; simp; blast)
  then obtain a b dx dy where
    dx: "map_of d x = Some dx" and
    ex: "\<exists>i\<in>set dx. \<not> supported a b i dy" and
    d': "d' = AList.update x (filter (\<lambda>i. supported a b i dy) dx) d"
    by blast
  from ex have "length (filter (\<lambda>i. supported a b i dy) dx) < length dx"
    by (meson length_filter_less)
  with total_size_update[OF dx, of "filter (\<lambda>i. supported a b i dy) dx"] d'
  show ?thesis by simp
qed

section \<open>The worklist loop\<close>

text \<open>Induction along the runs of the worklist loop.\<close>

lemma ac3_loop_induct [consumes 0, case_names Nil Cons]:
  assumes base: "\<And>d. P [] d"
    and step: "\<And>x y rest d.
        (revise cw d x y = Inr (False, d) \<Longrightarrow> P rest d) \<Longrightarrow>
        (\<And>d' dx. revise cw d x y = Inr (True, d') \<Longrightarrow> map_of d' x = Some dx \<Longrightarrow> dx \<noteq> [] \<Longrightarrow>
            P (rest @ map (\<lambda>z. (z, x)) (removeAll y (neighbors cw x))) d') \<Longrightarrow>
        P ((x, y) # rest) d"
  shows "P arcs d"
proof (induction "total_size d" arbitrary: d arcs rule: less_induct)
  case less
  show ?case
  proof (induction arcs)
    case Nil
    show ?case by (rule base)
  next
    case (Cons arc rest)
    obtain x y where arc: "arc = (x, y)" by (cases arc)
    show ?case unfolding arc
    proof (rule step)
      show "P rest d" by (rule Cons.IH)
    next
      fix d' dx
      assume "revise cw d x y = Inr (True, d')"
      then have "total_size d' < total_size d" by (rule revise_True_smaller)
      then show "P (rest @ map (\<lambda>z. (z, x)) (removeAll y (neighbors cw x))) d'"
        by (rule less)
    qed
  qed
qed

lemma ac3_loop_Cons:
  "ac3_loop cw ((x, y) # rest) d =
     (case revise cw d x y of
        Inl e \<Rightarrow> Some (Inl e)
      | Inr (revised, d') \<Rightarrow>
          if revised then
            (case map_of d' x of
               None \<Rightarrow> Some (Inl KeyError)
             | Some dx \<Rightarrow>
                 if dx = [] then Some (Inr (False, d'))
                 else ac3_loop cw (rest @ map (\<lambda>z. (z, x)) (removeAll y (neighbors cw x))) d')
          else ac3_loop cw rest d')"
  by (subst ac3_loop.simps) (simp split: sum.splits prod.splits option.splits)

lemma ac3_loop_Nil: "ac3_loop cw [] d = Some (Inr (True, d))"
  by (subst ac3_loop.simps) simp

lemma ac3_loop_returns: "\<exists>r. ac3_loop cw arcs d = Some r"
proof (induction arcs d rule: ac3_loop_induct[where cw = cw])
  case (Nil d)
  show ?case by (simp add: ac3_loop_Nil)
next
  case (Cons x y rest d)
  show ?case
  proof (cases "revise cw d x y")
    case (Inl e)
    then show ?thesis by (simp add: ac3_loop_Cons)
  next
    case (Inr p)
    obtain r d' where p: "p = (r, d')" by (cases p)
    show ?thesis
    proof (cases r)
      case False
      with Inr p have "d' = d" by (auto dest: revise_False_same)
      with Inr p False Cons(1) show ?thesis by (simp add: ac3_loop_Cons)
    next
      case True
      with Inr p Cons(2)[of d'] show ?thesis
        by (auto simp: ac3_loop_Cons split: option.splits)
    qed
  qed
qed

text \<open>
  Claim C6. The worklist loop of \<^verbatim>\<open>ac3\<close> returns on every puzzle graph,
  every domain store and every initial list of arcs. The reason is the one the claim
  gives: a revision that reports a change has removed a word, so the number of words in
  the store has decreased, and a revision that reports none leaves the store as it is and
  only shortens the worklist.
\<close>

theorem ac3_terminates:
  "(\<exists>r. ac3 cw d arcs = Some r) \<and>
   (revise cw d x y = Inr (True, d') \<longrightarrow> total_size d' < total_size d) \<and>
   (revise cw d x y = Inr (False, d') \<longrightarrow> d' = d)"
  unfolding ac3_def
  using ac3_loop_returns revise_True_smaller revise_False_same by blast

lemma domain_of_update:
  "domain_of (AList.update x ws d) z = (if z = x then set ws else domain_of d z)"
  by (simp add: domain_of_def update_conv')


lemma arc_consistentI:
  assumes "\<And>a b w. overlaps cw (x, y) = Some (Some (a, b)) \<Longrightarrow> w \<in> domain_of d x \<Longrightarrow>
      \<exists>w'\<in>domain_of d y. w \<noteq> w' \<and> a < length w \<and> b < length w' \<and> w ! a = w' ! b"
  shows "arc_consistent cw d x y"
  using assms unfolding arc_consistent_def by (auto split: option.splits)

lemma arc_consistentD:
  assumes "arc_consistent cw d x y" "overlaps cw (x, y) = Some (Some (a, b))" "w \<in> domain_of d x"
  shows "\<exists>w'\<in>domain_of d y. w \<noteq> w' \<and> a < length w \<and> b < length w' \<and> w ! a = w' ! b"
  using assms unfolding arc_consistent_def by auto

lemma supported_iff:
  "supported a b i js = (\<exists>j\<in>set js. i \<noteq> j \<and> a < length i \<and> b < length j \<and> i ! a = j ! b)"
  by (simp add: supported_def)

lemma revise_arc_consistent:
  assumes rev: "revise cw d x y = Inr (r, d')" and ne: "x \<noteq> y"
  shows "arc_consistent cw d' x y"
proof (rule arc_consistentI)
  fix a b w
  assume ov: "overlaps cw (x, y) = Some (Some (a, b))" and w: "w \<in> domain_of d' x"
  from revise_Inr[OF rev] ov obtain dx where dx: "map_of d x = Some dx"
    and alt: "(dx = [] \<and> \<not> r \<and> d' = d) \<or>
             (\<exists>dy. map_of d y = Some dy \<and>
                r = (\<exists>i\<in>set dx. \<not> supported a b i dy) \<and>
                d' = (if r then AList.update x (filter (\<lambda>i. supported a b i dy) dx) d else d))"
    by auto
  from alt show "\<exists>w'\<in>domain_of d' y. w \<noteq> w' \<and> a < length w \<and> b < length w' \<and> w ! a = w' ! b"
  proof
    assume "dx = [] \<and> \<not> r \<and> d' = d"
    with dx w show ?thesis by (simp add: domain_of_def)
  next
    assume "\<exists>dy. map_of d y = Some dy \<and>
                r = (\<exists>i\<in>set dx. \<not> supported a b i dy) \<and>
                d' = (if r then AList.update x (filter (\<lambda>i. supported a b i dy) dx) d else d)"
    then obtain dy where dy: "map_of d y = Some dy"
      and r: "r = (\<exists>i\<in>set dx. \<not> supported a b i dy)"
      and d': "d' = (if r then AList.update x (filter (\<lambda>i. supported a b i dy) dx) d else d)"
      by blast
    have y: "domain_of d' y = set dy"
      using d' dy ne by (auto simp: domain_of_update) (simp add: domain_of_def)+
    have "w \<in> set dx \<and> supported a b w dy"
    proof (cases r)
      case True
      with d' w show ?thesis by (simp add: domain_of_update)
    next
      case False
      with d' w dx r show ?thesis by (auto simp: domain_of_def)
    qed
    then show ?thesis unfolding y supported_iff by blast
  qed
qed

lemma arc_consistent_shrink:
  assumes "arc_consistent cw d u v" "domain_of d' u \<subseteq> domain_of d u" "domain_of d' v = domain_of d v"
  shows "arc_consistent cw d' u v"
  using assms unfolding arc_consistent_def by (auto split: option.splits)

lemma revise_True_domains:
  assumes rev: "revise cw d x y = Inr (True, d')"
  shows "\<exists>a b dx dy. overlaps cw (x, y) = Some (Some (a, b)) \<and> map_of d x = Some dx \<and>
           map_of d y = Some dy \<and> (\<exists>i\<in>set dx. \<not> supported a b i dy) \<and>
           d' = AList.update x (filter (\<lambda>i. supported a b i dy) dx) d"
  using revise_Inr[OF rev] by (elim disjE exE conjE; simp; blast)

lemma revise_domain_subset:
  assumes rev: "revise cw d x y = Inr (True, d')"
  shows "domain_of d' z \<subseteq> domain_of d z" and "z \<noteq> x \<Longrightarrow> domain_of d' z = domain_of d z"
proof -
  from revise_True_domains[OF rev] obtain a b dx dy where
    dx: "map_of d x = Some dx" and
    d': "d' = AList.update x (filter (\<lambda>i. supported a b i dy) dx) d"
    by blast
  show "domain_of d' z \<subseteq> domain_of d z"
    unfolding d' domain_of_update using dx by (auto simp: domain_of_def)
  show "z \<noteq> x \<Longrightarrow> domain_of d' z = domain_of d z"
    unfolding d' domain_of_update by simp
qed

lemma revise_back_arc:
  assumes rev: "revise cw d x y = Inr (True, d')" and ne: "x \<noteq> y"
    and ac: "arc_consistent cw d y x"
    and sym: "\<And>b a. overlaps cw (y, x) = Some (Some (b, a)) \<Longrightarrow> overlaps cw (x, y) = Some (Some (a, b))"
  shows "arc_consistent cw d' y x"
proof (rule arc_consistentI)
  fix b a w
  assume ov: "overlaps cw (y, x) = Some (Some (b, a))" and w: "w \<in> domain_of d' y"
  from revise_True_domains[OF rev] sym[OF ov] obtain dx dy where
    dx: "map_of d x = Some dx" and dy: "map_of d y = Some dy" and
    d': "d' = AList.update x (filter (\<lambda>i. supported a b i dy) dx) d"
    by auto
  from w ne have w_old: "w \<in> domain_of d y" unfolding d' by (simp add: domain_of_update)
  from arc_consistentD[OF ac ov w_old] obtain w' where
    w': "w' \<in> domain_of d x" "w \<noteq> w'" "b < length w" "a < length w'" "w ! b = w' ! a"
    by blast
  from w_old dy have "w \<in> set dy" by (simp add: domain_of_def)
  with w' have "supported a b w' dy" unfolding supported_iff by (intro bexI[of _ w]) auto
  moreover from w'(1) dx have "w' \<in> set dx" by (simp add: domain_of_def)
  ultimately have "w' \<in> domain_of d' x" unfolding d' by (simp add: domain_of_update)
  with w' show "\<exists>w'\<in>domain_of d' x. w \<noteq> w' \<and> b < length w \<and> a < length w' \<and> w ! b = w' ! a"
    by blast
qed

lemma symmetric_graphD:
  assumes "symmetric_graph cw" "x \<in> set (variables cw)" "y \<in> set (neighbors cw x)"
  shows "y \<in> set (variables cw)" and "x \<noteq> y" and "x \<in> set (neighbors cw y)"
    and "overlaps cw (x, y) = Some (Some (a, b)) \<Longrightarrow> overlaps cw (y, x) = Some (Some (b, a))"
proof -
  from assms have *: "y \<in> set (variables cw) \<and> x \<noteq> y \<and> x \<in> set (neighbors cw y) \<and>
        (case overlaps cw (x, y) of
           Some (Some (a, b)) \<Rightarrow> overlaps cw (y, x) = Some (Some (b, a))
         | _ \<Rightarrow> True)"
    unfolding symmetric_graph_def by blast
  from * show "y \<in> set (variables cw)" and "x \<noteq> y" and "x \<in> set (neighbors cw y)"
    by blast+
  from * show "overlaps cw (x, y) = Some (Some (a, b)) \<Longrightarrow> overlaps cw (y, x) = Some (Some (b, a))"
    by simp
qed

lemma set_all_arcs: "set (all_arcs cw) = graph_arcs cw"
  by (auto simp: all_arcs_def graph_arcs_def)

lemma ac3_loop_sound:
  assumes sym: "symmetric_graph cw"
  shows "set arcs \<subseteq> graph_arcs cw \<Longrightarrow>
     (\<forall>p\<in>graph_arcs cw - set arcs. arc_consistent cw d (fst p) (snd p)) \<Longrightarrow>
     ac3_loop cw arcs d = Some (Inr (True, d')) \<Longrightarrow>
     (\<forall>p\<in>graph_arcs cw. arc_consistent cw d' (fst p) (snd p))"
proof (induction arcs d rule: ac3_loop_induct[where cw = cw])
  case (Nil d)
  then show ?case by (simp add: ac3_loop_Nil)
next
  case (Cons x y rest d)
  from Cons.prems(1) have xy: "(x, y) \<in> graph_arcs cw" and rest: "set rest \<subseteq> graph_arcs cw"
    by auto
  from xy have xv: "x \<in> set (variables cw)" and yn: "y \<in> set (neighbors cw x)"
    by (auto simp: graph_arcs_def)
  have ne: "x \<noteq> y" by (rule symmetric_graphD(2)[OF sym xv yn])
  show ?case
  proof (cases "revise cw d x y")
    case (Inl e)
    with Cons.prems(3) show ?thesis by (simp add: ac3_loop_Cons)
  next
    case (Inr p)
    obtain r d1 where p: "p = (r, d1)" by (cases p)
    have here: "arc_consistent cw d1 x y"
      using Inr p ne by (auto intro: revise_arc_consistent)
    show ?thesis
    proof (cases r)
      case False
      with Inr p have same: "d1 = d" by (auto dest: revise_False_same)
      have run: "ac3_loop cw rest d = Some (Inr (True, d'))"
        using Cons.prems(3) Inr p False same by (simp add: ac3_loop_Cons)
      have inv: "\<forall>p\<in>graph_arcs cw - set rest. arc_consistent cw d (fst p) (snd p)"
        using Cons.prems(2) here same by auto
      have rev: "revise cw d x y = Inr (False, d)"
        using Inr p False same by simp
      show ?thesis
        using Cons.IH(1)[OF rev rest inv run] .
    next
      case True
      with Inr p have rev: "revise cw d x y = Inr (True, d1)" by simp
      let ?new = "map (\<lambda>z. (z, x)) (removeAll y (neighbors cw x))"
      have unfolded: "(case map_of d1 x of
               None \<Rightarrow> Some (Inl KeyError)
             | Some dx \<Rightarrow>
                 if dx = [] then Some (Inr (False, d1))
                 else ac3_loop cw (rest @ ?new) d1) = Some (Inr (True, d'))"
        using Cons.prems(3) unfolding ac3_loop_Cons rev by simp
      then obtain dx1 where dx1: "map_of d1 x = Some dx1"
        by (cases "map_of d1 x") auto
      from unfolded dx1 have dx1_ne: "dx1 \<noteq> []"
        by (auto split: if_splits)
      from unfolded dx1 dx1_ne
      have run: "ac3_loop cw (rest @ ?new) d1 = Some (Inr (True, d'))" by simp
      have "set ?new \<subseteq> graph_arcs cw"
      proof
        fix q assume "q \<in> set ?new"
        then obtain z where z: "q = (z, x)" "z \<in> set (neighbors cw x)" by auto
        from symmetric_graphD(1,3)[OF sym xv z(2)] z(1)
        show "q \<in> graph_arcs cw" by (simp add: graph_arcs_def)
      qed
      with rest have sub: "set (rest @ ?new) \<subseteq> graph_arcs cw" by simp
      have inv: "\<forall>p\<in>graph_arcs cw - set (rest @ ?new). arc_consistent cw d1 (fst p) (snd p)"
      proof
        fix p assume p_in: "p \<in> graph_arcs cw - set (rest @ ?new)"
        obtain u v where uv: "p = (u, v)" by (cases p)
        show "arc_consistent cw d1 (fst p) (snd p)"
        proof (cases "(u, v) = (x, y)")
          case True
          with here uv show ?thesis by simp
        next
          case False
          with p_in uv have "(u, v) \<in> graph_arcs cw - set ((x, y) # rest)" by simp
          with Cons.prems(2) have "arc_consistent cw d (fst (u, v)) (snd (u, v))" by blast
          then have old: "arc_consistent cw d u v" by simp
          show ?thesis
          proof (cases "v = x")
            case vx: True
            from p_in uv vx have ux: "u \<in> set (variables cw)" "x \<in> set (neighbors cw u)"
              by (auto simp: graph_arcs_def)
            have "u \<in> set (neighbors cw x)"
              by (rule symmetric_graphD(3)[OF sym ux])
            moreover from p_in uv vx have "(u, x) \<notin> set ?new" by simp
            ultimately have uy: "u = y" by auto
            have flip: "\<And>b a. overlaps cw (y, x) = Some (Some (b, a)) \<Longrightarrow>
                     overlaps cw (x, y) = Some (Some (a, b))"
              using symmetric_graphD(4)[OF sym ux] uy by simp
            from old uy vx have "arc_consistent cw d y x" by simp
            with rev ne have "arc_consistent cw d1 y x"
              using flip by (rule revise_back_arc)
            with uv uy vx show ?thesis by simp
          next
            case vx: False
            have "arc_consistent cw d1 u v"
              using old revise_domain_subset(1)[OF rev] revise_domain_subset(2)[OF rev vx]
              by (rule arc_consistent_shrink)
            with uv show ?thesis by simp
          qed
        qed
      qed
      show ?thesis
        using Cons.IH(2)[OF rev dx1 dx1_ne sub inv run] .
    qed
  qed
qed

text \<open>
  Claim C4. When \<^verbatim>\<open>ac3\<close>, called without a list of arcs, returns true, then
  for all neighbouring slots \<open>x\<close> and \<open>y\<close> that overlap at the offsets \<open>(a, b)\<close>
  every word \<open>w\<close> of the domain of \<open>x\<close> has a different word \<open>w'\<close> in the domain
  of \<open>y\<close> with \<open>w[a] = w'[b]\<close>.
\<close>

theorem ac3_sound:
  assumes "symmetric_graph cw" and "ac3 cw d None = Some (Inr (True, d'))"
  shows "\<forall>x\<in>set (variables cw). \<forall>y\<in>set (neighbors cw x). \<forall>a b.
           overlaps cw (x, y) = Some (Some (a, b)) \<longrightarrow>
           (\<forall>w\<in>domain_of d' x. \<exists>w'\<in>domain_of d' y.
               w \<noteq> w' \<and> a < length w \<and> b < length w' \<and> w ! a = w' ! b)"
proof -
  have "\<forall>p\<in>graph_arcs cw. arc_consistent cw d' (fst p) (snd p)"
    using assms ac3_loop_sound[of cw "all_arcs cw" d d']
    by (simp add: ac3_def set_all_arcs)
  then show ?thesis
    by (auto simp: graph_arcs_def dest: arc_consistentD)
qed

lemma slots_distinct [simp]: "slot_a \<noteq> slot_b" "slot_b \<noteq> slot_a"
  by (simp_all add: slot_a_def slot_b_def)

text \<open>
  Claim C3. \<^verbatim>\<open>revise(x, y)\<close> on slots that do not overlap returns false and
  leaves the store as it is. On slots that overlap at \<open>(a, b)\<close> it keeps in the domain
  of \<open>x\<close> exactly the words that have a different word in the domain of \<open>y\<close> with the
  same letter at the crossing, changes no other domain and no key, and returns true
  exactly when it removed a word. The offsets are assumed to lie inside the words of the
  two domains, as they do after node consistency.
\<close>

theorem revise_post:
  assumes ov: "overlaps cw (x, y) = Some ov"
    and dx: "map_of d x = Some dx" and dy: "map_of d y = Some dy"
    and rng: "\<forall>a b. ov = Some (a, b) \<longrightarrow> (\<forall>i\<in>set dx. a < length i) \<and> (\<forall>j\<in>set dy. b < length j)"
  shows "\<exists>r d'. revise cw d x y = Inr (r, d') \<and>
     (case ov of
        None \<Rightarrow> \<not> r \<and> d' = d
      | Some (a, b) \<Rightarrow>
          map_of d' x = Some (filter (\<lambda>i. \<exists>j\<in>set dy. i \<noteq> j \<and> i ! a = j ! b) dx) \<and>
          (\<forall>z. z \<noteq> x \<longrightarrow> map_of d' z = map_of d z) \<and>
          map fst d' = map fst d \<and>
          r = (\<exists>i\<in>set dx. \<not> (\<exists>j\<in>set dy. i \<noteq> j \<and> i ! a = j ! b)))"
proof (cases ov)
  case None
  with ov have "revise cw d x y = Inr (False, d)" by (simp add: revise_def)
  with None show ?thesis by auto
next
  case (Some p)
  obtain a b where p: "p = (a, b)" by (cases p)
  let ?P = "\<lambda>i. \<exists>j\<in>set dy. i \<noteq> j \<and> i ! a = j ! b"
  from rng Some p have "\<forall>i\<in>set dx. \<forall>j\<in>set dy. i \<noteq> j \<longrightarrow> a < length i \<and> b < length j"
    by simp
  then have loop: "revise_loop a b dx (Some dy) [] = Inr (filter (\<lambda>i. \<not> ?P i) dx)"
    using revise_loop_total[of dx dy a b "[]"] by simp
  have keep: "filter (\<lambda>w. w \<notin> set (filter (\<lambda>i. \<not> ?P i) dx)) dx = filter ?P dx"
    by (rule filter_not_removed)
  have key: "x \<in> fst ` set d" using dx by (metis map_of_eq_None_iff option.distinct(1))
  show ?thesis
  proof (cases "filter (\<lambda>i. \<not> ?P i) dx = []")
    case True
    then have all: "\<forall>i\<in>set dx. ?P i" by (simp add: filter_empty_conv)
    then have "filter ?P dx = dx" by (simp add: filter_id_conv)
    moreover have "revise cw d x y = Inr (False, d)"
      using ov Some p dx dy loop True by (simp add: revise_def)
    ultimately show ?thesis using Some p dx all by auto
  next
    case False
    then have ex: "\<exists>i\<in>set dx. \<not> ?P i" by (simp add: filter_empty_conv)
    have "revise cw d x y = Inr (True, AList.update x (filter ?P dx) d)"
      using ov Some p dx dy loop False keep by (simp add: revise_def)
    then show ?thesis using Some p ex key
      by (auto simp: update_conv' update_keys)
  qed
qed

lemma ac3_loop_keeps_nonempty:
  "ac3_loop cw arcs d = Some (Inr (True, d')) \<Longrightarrow> map_of d v = Some ws \<Longrightarrow> ws \<noteq> [] \<Longrightarrow>
     \<exists>ws'. map_of d' v = Some ws' \<and> ws' \<noteq> []"
proof (induction arcs d arbitrary: ws rule: ac3_loop_induct[where cw = cw])
  case (Nil d)
  then show ?case by (simp add: ac3_loop_Nil)
next
  case (Cons x y rest d)
  show ?case
  proof (cases "revise cw d x y")
    case (Inl e)
    with Cons.prems(1) show ?thesis by (simp add: ac3_loop_Cons)
  next
    case (Inr p)
    obtain r d1 where p: "p = (r, d1)" by (cases p)
    show ?thesis
    proof (cases r)
      case False
      with Inr p have same: "d1 = d" by (auto dest: revise_False_same)
      have rev: "revise cw d x y = Inr (False, d)" using Inr p False same by simp
      have run: "ac3_loop cw rest d = Some (Inr (True, d'))"
        using Cons.prems(1) unfolding ac3_loop_Cons rev by simp
      show ?thesis by (rule Cons.IH(1)[OF rev run Cons.prems(2,3)])
    next
      case True
      with Inr p have rev: "revise cw d x y = Inr (True, d1)" by simp
      let ?new = "map (\<lambda>z. (z, x)) (removeAll y (neighbors cw x))"
      have unfolded: "(case map_of d1 x of
               None \<Rightarrow> Some (Inl KeyError)
             | Some dx \<Rightarrow>
                 if dx = [] then Some (Inr (False, d1))
                 else ac3_loop cw (rest @ ?new) d1) = Some (Inr (True, d'))"
        using Cons.prems(1) unfolding ac3_loop_Cons rev by simp
      then obtain dx1 where dx1: "map_of d1 x = Some dx1"
        by (cases "map_of d1 x") auto
      from unfolded dx1 have dx1_ne: "dx1 \<noteq> []" by (auto split: if_splits)
      from unfolded dx1 dx1_ne
      have run: "ac3_loop cw (rest @ ?new) d1 = Some (Inr (True, d'))" by simp
      from revise_True_domains[OF rev] obtain a b dx dy where
        d1: "d1 = AList.update x (filter (\<lambda>i. supported a b i dy) dx) d"
        by blast
      have "\<exists>ws1. map_of d1 v = Some ws1 \<and> ws1 \<noteq> []"
      proof (cases "v = x")
        case True
        with dx1 dx1_ne show ?thesis by simp
      next
        case False
        with Cons.prems(2,3) show ?thesis unfolding d1 by (simp add: update_conv')
      qed
      then obtain ws1 where ws1: "map_of d1 v = Some ws1" "ws1 \<noteq> []" by blast
      show ?thesis by (rule Cons.IH(2)[OF rev dx1 dx1_ne run ws1])
    qed
  qed
qed

lemma ac3_loop_False_emptied:
  "ac3_loop cw arcs d = Some (Inr (False, d')) \<Longrightarrow>
     \<exists>x ws. map_of d x = Some ws \<and> ws \<noteq> [] \<and> map_of d' x = Some []"
proof (induction arcs d rule: ac3_loop_induct[where cw = cw])
  case (Nil d)
  then show ?case by (simp add: ac3_loop_Nil)
next
  case (Cons x y rest d)
  show ?case
  proof (cases "revise cw d x y")
    case (Inl e)
    with Cons.prems(1) show ?thesis by (simp add: ac3_loop_Cons)
  next
    case (Inr p)
    obtain r d1 where p: "p = (r, d1)" by (cases p)
    show ?thesis
    proof (cases r)
      case False
      with Inr p have same: "d1 = d" by (auto dest: revise_False_same)
      have rev: "revise cw d x y = Inr (False, d)" using Inr p False same by simp
      have run: "ac3_loop cw rest d = Some (Inr (False, d'))"
        using Cons.prems(1) unfolding ac3_loop_Cons rev by simp
      show ?thesis by (rule Cons.IH(1)[OF rev run])
    next
      case True
      with Inr p have rev: "revise cw d x y = Inr (True, d1)" by simp
      let ?new = "map (\<lambda>z. (z, x)) (removeAll y (neighbors cw x))"
      have unfolded: "(case map_of d1 x of
               None \<Rightarrow> Some (Inl KeyError)
             | Some dx \<Rightarrow>
                 if dx = [] then Some (Inr (False, d1))
                 else ac3_loop cw (rest @ ?new) d1) = Some (Inr (False, d'))"
        using Cons.prems(1) unfolding ac3_loop_Cons rev by simp
      then obtain dx1 where dx1: "map_of d1 x = Some dx1"
        by (cases "map_of d1 x") auto
      from revise_True_domains[OF rev] obtain a b dx dy where
        dx: "map_of d x = Some dx" and ex: "\<exists>i\<in>set dx. \<not> supported a b i dy" and
        d1: "d1 = AList.update x (filter (\<lambda>i. supported a b i dy) dx) d"
        by blast
      from ex have dx_ne: "dx \<noteq> []" by auto
      show ?thesis
      proof (cases "dx1 = []")
        case True
        with unfolded dx1 have "d' = d1" by simp
        with dx dx_ne dx1 True show ?thesis by blast
      next
        case False
        with unfolded dx1
        have run: "ac3_loop cw (rest @ ?new) d1 = Some (Inr (False, d'))" by simp
        from Cons.IH(2)[OF rev dx1 False run] obtain x' ws1 where
          x': "map_of d1 x' = Some ws1" "ws1 \<noteq> []" "map_of d' x' = Some []" by blast
        show ?thesis
        proof (cases "x' = x")
          case True
          with dx dx_ne x'(3) show ?thesis by blast
        next
          case False
          with x'(1) have "map_of d x' = Some ws1" unfolding d1 by (simp add: update_conv')
          with x'(2,3) show ?thesis by blast
        qed
      qed
    qed
  qed
qed

text \<open>
  What the result of \<^verbatim>\<open>ac3\<close> does say about the domains. A revision that
  empties the domain of its slot makes it return false at once, whatever is left in the
  worklist. When it returns true, no domain that had a word has become empty; when it
  returns false, a domain that had a word is empty. A domain that is empty from the start
  is not covered by any of this.
\<close>

lemma ac3_result_and_domains:
  "(revise cw d x y = Inr (True, d1) \<and> map_of d1 x = Some [] \<longrightarrow>
      ac3_loop cw ((x, y) # rest) d = Some (Inr (False, d1)))
   \<and> (ac3 cw d arcs = Some (Inr (True, d')) \<longrightarrow>
        (\<forall>v ws. map_of d v = Some ws \<and> ws \<noteq> [] \<longrightarrow> (\<exists>ws'. map_of d' v = Some ws' \<and> ws' \<noteq> [])))
   \<and> (ac3 cw d arcs = Some (Inr (False, d')) \<longrightarrow>
        (\<exists>v ws. map_of d v = Some ws \<and> ws \<noteq> [] \<and> map_of d' v = Some []))"
proof (intro conjI impI allI)
  assume "revise cw d x y = Inr (True, d1) \<and> map_of d1 x = Some []"
  then show "ac3_loop cw ((x, y) # rest) d = Some (Inr (False, d1))"
    by (simp add: ac3_loop_Cons)
next
  fix v ws
  assume "ac3 cw d arcs = Some (Inr (True, d'))" "map_of d v = Some ws \<and> ws \<noteq> []"
  then show "\<exists>ws'. map_of d' v = Some ws' \<and> ws' \<noteq> []"
    unfolding ac3_def using ac3_loop_keeps_nonempty by blast
next
  assume "ac3 cw d arcs = Some (Inr (False, d'))"
  then show "\<exists>v ws. map_of d v = Some ws \<and> ws \<noteq> [] \<and> map_of d' v = Some []"
    unfolding ac3_def by (rule ac3_loop_False_emptied)
qed

lemma cross_revise: "revise cross_puzzle cross_domains slot_a slot_b =
    Inr (True, [(slot_a, [''CAT'', ''ACT'']), (slot_b, [''CAT'', ''ACT'', ''DOG''])])"
  by (simp add: revise_def cross_puzzle_def cross_overlaps_def cross_domains_def)

theorem ac3_terminates_witness:
  "total_size [(slot_a, [''CAT'', ''ACT'']), (slot_b, [''CAT'', ''ACT'', ''DOG''])]
     < total_size cross_domains"
  using ac3_terminates[where cw = cross_puzzle and d = cross_domains and x = slot_a
      and y = slot_b and d' = "[(slot_a, [''CAT'', ''ACT'']), (slot_b, [''CAT'', ''ACT'', ''DOG''])]"]
    cross_revise
  by blast

theorem revise_post_witness:
  "\<exists>r d'. revise cross_puzzle cross_domains slot_a slot_b = Inr (r, d') \<and> r \<and>
      map_of d' slot_a = Some [''CAT'', ''ACT''] \<and> map_of d' slot_b = map_of cross_domains slot_b"
proof -
  have h1: "overlaps cross_puzzle (slot_a, slot_b) = Some (Some (1, 0))"
    by (simp add: cross_puzzle_def cross_overlaps_def)
  have h2: "map_of cross_domains slot_a = Some [''CAT'', ''ACT'', ''DOG'']"
    by (simp add: cross_domains_def)
  have h3: "map_of cross_domains slot_b = Some [''CAT'', ''ACT'', ''DOG'']"
    by (simp add: cross_domains_def)
  have h4: "\<forall>a b. Some (1::nat, 0::nat) = Some (a, b) \<longrightarrow>
      (\<forall>i\<in>set [''CAT'', ''ACT'', ''DOG'']. a < length i) \<and>
      (\<forall>j\<in>set [''CAT'', ''ACT'', ''DOG'']. b < length j)"
    by simp
  from revise_post[OF h1 h2 h3 h4] obtain r d' where
    run: "revise cross_puzzle cross_domains slot_a slot_b = Inr (r, d')" and
    a: "map_of d' slot_a = Some [''CAT'', ''ACT'']" and
    others: "\<forall>z. z \<noteq> slot_a \<longrightarrow> map_of d' z = map_of cross_domains z" and
    r: "r"
    by auto
  from others have "map_of d' slot_b = map_of cross_domains slot_b" by simp
  with run a r show ?thesis by blast
qed

lemma cross_symmetric: "symmetric_graph cross_puzzle"
  by (simp add: symmetric_graph_def cross_puzzle_def cross_overlaps_def)

lemma cross_ac3: "ac3 cross_puzzle cross_domains None =
    Some (Inr (True, [(slot_a, [''CAT'', ''ACT'']), (slot_b, [''CAT'', ''ACT''])]))"
  by (simp add: ac3_def all_arcs_def ac3_loop_Cons ac3_loop_Nil revise_def
      cross_puzzle_def cross_overlaps_def cross_domains_def)

theorem ac3_sound_witness:
  "symmetric_graph cross_puzzle \<and>
   ac3 cross_puzzle cross_domains None =
     Some (Inr (True, [(slot_a, [''CAT'', ''ACT'']), (slot_b, [''CAT'', ''ACT''])])) \<and>
   (\<exists>w'\<in>domain_of [(slot_a, [''CAT'', ''ACT'']), (slot_b, [''CAT'', ''ACT''])] slot_b.
       ''CAT'' \<noteq> w' \<and> 1 < length ''CAT'' \<and> 0 < length w' \<and> ''CAT'' ! 1 = w' ! 0)"
proof -
  let ?d = "[(slot_a, [''CAT'', ''ACT'']), (slot_b, [''CAT'', ''ACT''])]"
  have a: "slot_a \<in> set (variables cross_puzzle)" by (simp add: cross_puzzle_def)
  have b: "slot_b \<in> set (neighbors cross_puzzle slot_a)" by (simp add: cross_puzzle_def)
  have o: "overlaps cross_puzzle (slot_a, slot_b) = Some (Some (1, 0))"
    by (simp add: cross_puzzle_def cross_overlaps_def)
  have w: "''CAT'' \<in> domain_of ?d slot_a" by (simp add: domain_of_def)
  from ac3_sound[OF cross_symmetric cross_ac3] a b o w
  have "\<exists>w'\<in>domain_of ?d slot_b.
       ''CAT'' \<noteq> w' \<and> 1 < length ''CAT'' \<and> 0 < length w' \<and> ''CAT'' ! 1 = w' ! 0"
    by blast
  with cross_symmetric cross_ac3 show ?thesis by blast
qed

lemma ac3_emptying_revision_example:
  "ac3_loop cross_puzzle [(slot_a, slot_b), (slot_b, slot_a)]
       [(slot_a, [''CAT'']), (slot_b, [''DOG''])] =
     Some (Inr (False, [(slot_a, []), (slot_b, [''DOG''])]))"
proof -
  let ?d = "[(slot_a, [''CAT'']), (slot_b, [''DOG''])]"
  let ?d1 = "[(slot_a, []), (slot_b, [''DOG''])]"
  have rev: "revise cross_puzzle ?d slot_a slot_b = Inr (True, ?d1)"
    by (simp add: revise_def cross_puzzle_def cross_overlaps_def)
  have e: "map_of ?d1 slot_a = Some []" by simp
  from ac3_result_and_domains[where cw = cross_puzzle and d = ?d and x = slot_a and y = slot_b
      and ?d1.0 = ?d1 and rest = "[(slot_b, slot_a)]"] rev e
  show ?thesis by blast
qed

text \<open>
  Claim C5. \<^verbatim>\<open>ac3\<close> is meant to return false whenever the constraints of
  the puzzle leave some slot without a candidate word; its docstring says: return False if
  one or more domains end up empty. On \<open>ox_puzzle\<close> node consistency empties both
  domains, no revision ever removes a word, and \<^verbatim>\<open>ac3\<close> returns true with
  both domains empty: the emptiness test stands only behind a revision that has changed
  the domain of its slot.
\<close>

theorem ac3_true_with_empty_domains:
  "enforce_node_consistency (init_domains ox_puzzle) = [(slot_a, []), (slot_b, [])] \<and>
   ac3 ox_puzzle (enforce_node_consistency (init_domains ox_puzzle)) None =
     Some (Inr (True, [(slot_a, []), (slot_b, [])]))"
  by code_simp

section \<open>The consistency check\<close>

lemma consistent_inner_Cons_True:
  "consistent_inner cw x i ((y, j) # rest) = Inr True \<longleftrightarrow>
     (x \<noteq> y \<longrightarrow>
        i \<noteq> j \<and> (\<exists>ov. overlaps cw (x, y) = Some ov) \<and>
        (\<forall>p q. overlaps cw (x, y) = Some (Some (p, q)) \<longrightarrow>
           p < length i \<and> q < length j \<and> i ! p = j ! q)) \<and>
     consistent_inner cw x i rest = Inr True"
  by (auto split: option.splits)

lemma consistent_inner_True:
  "consistent_inner cw x i a = Inr True \<longleftrightarrow>
     (\<forall>(y, j)\<in>set a. x \<noteq> y \<longrightarrow>
        i \<noteq> j \<and> (\<exists>ov. overlaps cw (x, y) = Some ov) \<and>
        (\<forall>p q. overlaps cw (x, y) = Some (Some (p, q)) \<longrightarrow>
           p < length i \<and> q < length j \<and> i ! p = j ! q))"
proof (induction a)
  case Nil
  show ?case by simp
next
  case (Cons yj rest)
  obtain y j where yj: "yj = (y, j)" by (cases yj)
  show ?case unfolding yj consistent_inner_Cons_True Cons.IH by simp
qed

lemma consistent_outer_True:
  "consistent_outer cw items a = Inr True \<longleftrightarrow>
     (\<forall>(x, i)\<in>set items. var_length x = length i \<and> consistent_inner cw x i a = Inr True)"
proof (induction items)
  case Nil
  show ?case by simp
next
  case (Cons xi rest)
  obtain x i where xi: "xi = (x, i)" by (cases xi)
  show ?case unfolding xi
    by (cases "consistent_inner cw x i a") (auto simp: Cons.IH)
qed

text \<open>
  Claim C8. \<^verbatim>\<open>consistent\<close> returns true exactly when every assigned word has
  the length of its slot, no two assigned slots hold the same word, and the words of any
  two assigned slots that overlap agree at the crossing. Only assigned slots are looked
  at, and the function returns a truth value and nothing else. The overlaps dictionary
  is assumed to have an entry for every two assigned slots, with offsets inside the
  slots.
\<close>

theorem consistent_iff:
  assumes ov: "\<forall>x\<in>fst ` set a. \<forall>y\<in>fst ` set a. x \<noteq> y \<longrightarrow> (\<exists>e. overlaps cw (x, y) = Some e)"
    and rng: "\<forall>x\<in>fst ` set a. \<forall>y\<in>fst ` set a. \<forall>p q.
                overlaps cw (x, y) = Some (Some (p, q)) \<longrightarrow> p < var_length x \<and> q < var_length y"
  shows "consistent cw a = Inr True \<longleftrightarrow>
     (\<forall>(x, i)\<in>set a. length i = var_length x) \<and>
     (\<forall>(x, i)\<in>set a. \<forall>(y, j)\<in>set a. x \<noteq> y \<longrightarrow> i \<noteq> j) \<and>
     (\<forall>(x, i)\<in>set a. \<forall>(y, j)\<in>set a. x \<noteq> y \<longrightarrow>
        (\<forall>p q. overlaps cw (x, y) = Some (Some (p, q)) \<longrightarrow> i ! p = j ! q))"
    (is "?L \<longleftrightarrow> ?len \<and> ?dup \<and> ?agree")
proof
  assume ?L
  then have *: "\<forall>(x, i)\<in>set a. var_length x = length i \<and> consistent_inner cw x i a = Inr True"
    by (simp add: consistent_def consistent_outer_True)
  have ?len using * by auto
  moreover have ?dup using * by (fastforce simp: consistent_inner_True)
  moreover have ?agree using * by (fastforce simp: consistent_inner_True)
  ultimately show "?len \<and> ?dup \<and> ?agree" by blast
next
  assume r: "?len \<and> ?dup \<and> ?agree"
  have "\<forall>(x, i)\<in>set a. var_length x = length i \<and> consistent_inner cw x i a = Inr True"
  proof (clarify, rule conjI)
    fix x i assume xi: "(x, i) \<in> set a"
    with r show "var_length x = length i" by auto
    show "consistent_inner cw x i a = Inr True"
      unfolding consistent_inner_True
    proof (clarify, intro conjI allI impI)
      fix y j assume yj: "(y, j) \<in> set a" and ne: "x \<noteq> y"
      from r xi yj ne show "i \<noteq> j" by blast
      from xi yj have k: "x \<in> fst ` set a" "y \<in> fst ` set a" by force+
      with ov ne show "\<exists>ov. overlaps cw (x, y) = Some ov" by blast
      fix p q assume o: "overlaps cw (x, y) = Some (Some (p, q))"
      from rng k o have "p < var_length x" "q < var_length y" by blast+
      moreover from r xi yj have "length i = var_length x" "length j = var_length y" by auto
      ultimately show "p < length i" "q < length j" by simp_all
      from r xi yj ne o show "i ! p = j ! q" by blast
    qed
  qed
  then show ?L by (simp add: consistent_def consistent_outer_True)
qed

theorem consistent_iff_witness:
  "consistent cross_puzzle [(slot_a, ''CAT''), (slot_b, ''ACT'')] = Inr True"
proof -
  let ?a = "[(slot_a, ''CAT''), (slot_b, ''ACT'')]"
  have h1: "\<forall>x\<in>fst ` set ?a. \<forall>y\<in>fst ` set ?a. x \<noteq> y \<longrightarrow>
      (\<exists>e. overlaps cross_puzzle (x, y) = Some e)"
    by (simp add: cross_puzzle_def cross_overlaps_def)
  have h2: "\<forall>x\<in>fst ` set ?a. \<forall>y\<in>fst ` set ?a. \<forall>p q.
      overlaps cross_puzzle (x, y) = Some (Some (p, q)) \<longrightarrow> p < var_length x \<and> q < var_length y"
    by (simp add: cross_puzzle_def cross_overlaps_def slot_a_def slot_b_def)
  have h3: "(\<forall>(x, i)\<in>set ?a. length i = var_length x) \<and>
     (\<forall>(x, i)\<in>set ?a. \<forall>(y, j)\<in>set ?a. x \<noteq> y \<longrightarrow> i \<noteq> j) \<and>
     (\<forall>(x, i)\<in>set ?a. \<forall>(y, j)\<in>set ?a. x \<noteq> y \<longrightarrow>
        (\<forall>p q. overlaps cross_puzzle (x, y) = Some (Some (p, q)) \<longrightarrow> i ! p = j ! q))"
    by (simp add: cross_puzzle_def cross_overlaps_def slot_a_def slot_b_def)
  from consistent_iff[OF h1 h2] h3 show ?thesis by blast
qed

section \<open>The choice of the next slot\<close>

lemma potential_variables_eq:
  assumes "\<forall>v\<in>set vs. map_of a v = None \<longrightarrow> map_of d v \<noteq> None"
  shows "potential_variables cw d a vs acc =
     Inr (acc @ map (\<lambda>v. (v, domain_size d v, length (neighbors cw v)))
                   (filter (\<lambda>v. map_of a v = None) vs))"
  using assms
proof (induction vs arbitrary: acc)
  case Nil
  show ?case by simp
next
  case (Cons v vs)
  then show ?case by (auto simp: domain_size_def)
qed

lemma hd_sort_key_least:
  assumes "xs \<noteq> []"
  shows "hd (sort_key f xs) \<in> set xs \<and> (\<forall>x\<in>set xs. f (hd (sort_key f xs)) \<le> f x)"
proof -
  let ?ys = "sort_key f xs"
  from assms have ne: "?ys \<noteq> []" by (metis length_0_conv length_sort)
  then obtain y ys where ys: "?ys = y # ys" by (cases ?ys) auto
  have "sorted (map f ?ys)" by (rule sorted_sort_key)
  with ys have "\<forall>z\<in>set ys. f y \<le> f z" by simp
  moreover have "set ?ys = set xs" by simp
  ultimately show ?thesis using ys by (metis insert_iff list.sel(1) list.simps(15) order_refl)
qed

text \<open>
  Claim C9. When some slot is unassigned, \<^verbatim>\<open>select_unassigned_variable\<close> returns
  an unassigned slot whose domain is as small as that of any unassigned slot and which has
  as many neighbours as any unassigned slot with a domain of that size. When every slot is
  assigned it returns \<^verbatim>\<open>None\<close>. Every unassigned slot is assumed to have a
  domain in the store.
\<close>

theorem select_unassigned_variable_post:
  assumes "\<forall>v\<in>set (variables cw). map_of a v = None \<longrightarrow> map_of d v \<noteq> None"
  shows "if \<exists>v\<in>set (variables cw). map_of a v = None
         then \<exists>v. select_unassigned_variable cw d a = Inr (Some v) \<and>
                v \<in> set (variables cw) \<and> map_of a v = None \<and>
                (\<forall>u\<in>set (variables cw). map_of a u = None \<longrightarrow>
                    domain_size d v \<le> domain_size d u \<and>
                    (domain_size d u = domain_size d v \<longrightarrow>
                       length (neighbors cw u) \<le> length (neighbors cw v)))
         else select_unassigned_variable cw d a = Inr None"
proof -
  let ?un = "filter (\<lambda>v. map_of a v = None) (variables cw)"
  let ?ps = "map (\<lambda>v. (v, domain_size d v, length (neighbors cw v))) ?un"
  have ps: "potential_variables cw d a (variables cw) [] = Inr ?ps"
    using potential_variables_eq[OF assms, of cw "[]"] by simp
  show ?thesis
  proof (cases "\<exists>v\<in>set (variables cw). map_of a v = None")
    case False
    then have "?un = []" by (auto simp: filter_empty_conv)
    with ps False show ?thesis by (simp add: select_unassigned_variable_def)
  next
    case True
    then have ne: "?ps \<noteq> []" by (auto simp: filter_empty_conv)
    let ?best = "hd (sort_key sort_key_of ?ps)"
    from hd_sort_key_least[OF ne, of sort_key_of]
    have mem: "?best \<in> set ?ps" and least: "\<forall>p\<in>set ?ps. sort_key_of ?best \<le> sort_key_of p"
      by blast+
    from mem obtain v where v: "v \<in> set (variables cw)" "map_of a v = None"
      "?best = (v, domain_size d v, length (neighbors cw v))" by auto
    have sel: "select_unassigned_variable cw d a = Inr (Some v)"
      using ps ne v(3) by (simp add: select_unassigned_variable_def)
    have "\<forall>u\<in>set (variables cw). map_of a u = None \<longrightarrow>
             domain_size d v \<le> domain_size d u \<and>
             (domain_size d u = domain_size d v \<longrightarrow>
                length (neighbors cw u) \<le> length (neighbors cw v))"
    proof (intro ballI impI)
      fix u assume u: "u \<in> set (variables cw)" "map_of a u = None"
      then have "(u, domain_size d u, length (neighbors cw u)) \<in> set ?ps" by auto
      with least v(3)
      have "sort_key_of (v, domain_size d v, length (neighbors cw v))
              \<le> sort_key_of (u, domain_size d u, length (neighbors cw u))"
        by auto
      then show "domain_size d v \<le> domain_size d u \<and>
             (domain_size d u = domain_size d v \<longrightarrow>
                length (neighbors cw u) \<le> length (neighbors cw v))"
        by (auto simp: sort_key_of_def less_eq_prod_def)
    qed
    with sel v True show ?thesis by auto
  qed
qed

theorem select_unassigned_variable_witness:
  "select_unassigned_variable cross_puzzle cross_domains [(slot_a, ''CAT'')] = Inr (Some slot_b)"
proof -
  let ?a = "[(slot_a, ''CAT'')]"
  have h: "\<forall>v\<in>set (variables cross_puzzle). map_of ?a v = None \<longrightarrow> map_of cross_domains v \<noteq> None"
    by (simp add: cross_puzzle_def cross_domains_def)
  have u: "\<exists>v\<in>set (variables cross_puzzle). map_of ?a v = None"
    by (simp add: cross_puzzle_def)
  from select_unassigned_variable_post[OF h] u
  obtain v where v: "select_unassigned_variable cross_puzzle cross_domains ?a = Inr (Some v)"
    "v \<in> set (variables cross_puzzle)" "map_of ?a v = None"
    by auto
  from v(2,3) have "v = slot_b" by (auto simp: cross_puzzle_def split: if_splits)
  with v(1) show ?thesis by simp
qed

section \<open>A puzzle without slots\<close>

text \<open>
  Claim C10. On a puzzle graph without slots \<^verbatim>\<open>solve\<close> returns the empty
  assignment, which is a dictionary and not \<^verbatim>\<open>None\<close>: the assignment is
  complete from the start, so \<^verbatim>\<open>backtrack\<close> returns it at once.
\<close>

theorem solve_no_slots:
  assumes "variables cw = []"
  shows "solve (Suc fuel) cw (init_domains cw) = Some (Inr (Some [], [])) \<and>
         assignment_complete cw []"
  using assms
  by (simp add: solve_def init_domains_def enforce_node_consistency_def ac3_def all_arcs_def
      ac3_loop_Nil assignment_complete_def)

theorem solve_no_slots_witness:
  "solve 1 empty_puzzle (init_domains empty_puzzle) = Some (Inr (Some [], []))"
proof -
  have "variables empty_puzzle = []" by (simp add: empty_puzzle_def)
  from solve_no_slots[OF this, of 0] show ?thesis by simp
qed

section \<open>The search\<close>

lemma backtrack_loop_mono:
  assumes "\<And>a r. f a = Some r \<Longrightarrow> g a = Some r"
  shows "backtrack_loop f cw var vals a = Some r \<Longrightarrow> backtrack_loop g cw var vals a = Some r"
proof (induction vals arbitrary: a)
  case Nil
  then show ?case by simp
next
  case (Cons v vals)
  let ?a1 = "AList.update var v a"
  show ?case
  proof (cases "consistent cw ?a1")
    case (Inl e)
    with Cons.prems show ?thesis by (simp add: Let_def)
  next
    case (Inr ok)
    show ?thesis
    proof (cases ok)
      case False
      with Inr Cons.prems have "backtrack_loop f cw var vals (AList.delete var ?a1) = Some r"
        by (simp add: Let_def)
      then have "backtrack_loop g cw var vals (AList.delete var ?a1) = Some r"
        by (rule Cons.IH)
      with Inr False show ?thesis by (simp add: Let_def)
    next
      case True
      show ?thesis
      proof (cases "f ?a1")
        case None
        with Inr True Cons.prems show ?thesis by (simp add: Let_def)
      next
        case (Some res)
        then have g: "g ?a1 = Some res" by (rule assms)
        show ?thesis
        proof (cases res)
          case (Inl e)
          with Inr True Some g Cons.prems show ?thesis by (auto simp: Let_def)
        next
          case (Inr pr)
          obtain result a2 where pr: "pr = (result, a2)" by (cases pr)
          show ?thesis
          proof (cases "truthy result")
            case True
            with \<open>consistent cw ?a1 = Inr ok\<close> \<open>ok\<close> Some g Inr pr Cons.prems
            show ?thesis by (auto simp: Let_def)
          next
            case False
            with \<open>consistent cw ?a1 = Inr ok\<close> \<open>ok\<close> Some Inr pr Cons.prems
            have "backtrack_loop f cw var vals a2 = Some r" by (simp add: Let_def)
            then have "backtrack_loop g cw var vals a2 = Some r" by (rule Cons.IH)
            with \<open>consistent cw ?a1 = Inr ok\<close> \<open>ok\<close> g Inr pr False
            show ?thesis by (simp add: Let_def)
          qed
        qed
      qed
    qed
  qed
qed

lemma backtrack_fuel_mono:
  "backtrack n cw d a = Some r \<Longrightarrow> backtrack (n + k) cw d a = Some r"
proof (induction n arbitrary: a r)
  case 0
  then show ?case by simp
next
  case (Suc n)
  have step: "\<And>vals var. backtrack_loop (\<lambda>a. backtrack n cw d a) cw var vals a = Some r \<Longrightarrow>
      backtrack_loop (\<lambda>a. backtrack (n + k) cw d a) cw var vals a = Some r"
    by (rule backtrack_loop_mono) (rule Suc.IH)
  from Suc.prems show ?case
    by (auto split: if_splits sum.splits option.splits intro: step)
qed

lemma solve_fuel_mono:
  assumes "solve n cw d = Some r"
  shows "solve (n + k) cw d = Some r"
proof (cases "ac3 cw (enforce_node_consistency d) None")
  case None
  with assms show ?thesis by (simp add: solve_def)
next
  case (Some res)
  show ?thesis
  proof (cases res)
    case (Inl e)
    with Some assms show ?thesis by (simp add: solve_def)
  next
    case (Inr p)
    obtain b d2 where p: "p = (b, d2)" by (cases p)
    from assms Some Inr p obtain r' where r': "backtrack n cw d2 [] = Some r'"
      by (cases "backtrack n cw d2 []") (auto simp: solve_def)
    then have "backtrack (n + k) cw d2 [] = Some r'" by (rule backtrack_fuel_mono)
    with assms Some Inr p r' show ?thesis by (simp add: solve_def)
  qed
qed

lemma comb_solve_6:
  "solve 6 comb_puzzle (init_domains comb_puzzle) = Some (Inr (None, comb_domains))"
  by code_simp

lemma comb_backtrack_6:
  "backtrack 6 comb_puzzle comb_domains [] = Some (Inr (None, [(slot_left, ''ACT'')]))"
  by code_simp

lemma comb_solution:
  "is_solution comb_puzzle
      [(slot_top, ''BISON''), (slot_left, ''BOA''), (slot_right, ''NET''),
       (slot_mid, ''SO''), (slot_foot, ''AD'')]"
  by code_simp

text \<open>
  Claim C1. \<^verbatim>\<open>solve\<close> is meant to return a complete assignment that
  satisfies all constraints whenever one exists, and \<^verbatim>\<open>None\<close> only when
  there is none. On the puzzle \<open>comb_puzzle\<close> a complete assignment that satisfies all
  constraints exists, and \<^verbatim>\<open>solve\<close> returns \<^verbatim>\<open>None\<close>,
  however deep the recursion is allowed to go.
\<close>

theorem solve_misses_solution:
  "solve (6 + k) comb_puzzle (init_domains comb_puzzle) = Some (Inr (None, comb_domains)) \<and>
   is_solution comb_puzzle
      [(slot_top, ''BISON''), (slot_left, ''BOA''), (slot_right, ''NET''),
       (slot_mid, ''SO''), (slot_foot, ''AD'')]"
  using solve_fuel_mono[OF comb_solve_6, of k] comb_solution by simp

text \<open>
  Claim C2. A call of \<^verbatim>\<open>backtrack\<close> that fails is meant to leave the
  assignment as it found it. On the domains of \<open>comb_puzzle\<close> after arc consistency,
  the call on the empty assignment returns \<^verbatim>\<open>None\<close> and leaves the slot
  \<open>slot_left\<close> bound: the binding was consistent, the recursive call after it failed,
  and the slot is removed in the \<^verbatim>\<open>else\<close> branch of the consistency test
  only.
\<close>

theorem backtrack_keeps_binding:
  "backtrack (6 + k) comb_puzzle comb_domains [] = Some (Inr (None, [(slot_left, ''ACT'')]))"
  using backtrack_fuel_mono[OF comb_backtrack_6, of k] by simp

section \<open>What the search returns\<close>

text \<open>An assignment that the search returns is complete and has passed the consistency check.\<close>

lemma backtrack_loop_result:
  assumes f: "\<And>a1 res a'. consistent cw a1 = Inr True \<Longrightarrow> f a1 = Some (Inr (Some res, a')) \<Longrightarrow> P res a'"
  shows "backtrack_loop f cw var vals a = Some (Inr (Some res, a')) \<Longrightarrow> P res a'"
proof (induction vals arbitrary: a)
  case Nil
  then show ?case by simp
next
  case (Cons v vals)
  let ?a1 = "AList.update var v a"
  show ?case
  proof (cases "consistent cw ?a1")
    case (Inl e)
    with Cons.prems show ?thesis by (simp add: Let_def)
  next
    case ok: (Inr ok)
    show ?thesis
    proof (cases ok)
      case False
      with ok Cons.prems
      have "backtrack_loop f cw var vals (AList.delete var ?a1) = Some (Inr (Some res, a'))"
        by (simp add: Let_def)
      then show ?thesis by (rule Cons.IH)
    next
      case True
      with ok have c: "consistent cw ?a1 = Inr True" by simp
      show ?thesis
      proof (cases "f ?a1")
        case None
        with c Cons.prems show ?thesis by (simp add: Let_def)
      next
        case (Some r)
        show ?thesis
        proof (cases r)
          case (Inl e)
          with c Some Cons.prems show ?thesis by (simp add: Let_def)
        next
          case (Inr pr)
          obtain result a2 where pr: "pr = (result, a2)" by (cases pr)
          show ?thesis
          proof (cases "truthy result")
            case True
            with c Some Inr pr Cons.prems have "result = Some res" "a2 = a'"
              by (simp_all add: Let_def)
            with Some Inr pr have "f ?a1 = Some (Inr (Some res, a'))" by simp
            with c show ?thesis by (rule f)
          next
            case False
            with c Some Inr pr Cons.prems
            have "backtrack_loop f cw var vals a2 = Some (Inr (Some res, a'))"
              by (simp add: Let_def)
            then show ?thesis by (rule Cons.IH)
          qed
        qed
      qed
    qed
  qed
qed

lemma backtrack_sound:
  "backtrack n cw d a = Some (Inr (Some res, a')) \<Longrightarrow> consistent cw a = Inr True \<Longrightarrow>
     res = a' \<and> assignment_complete cw res \<and> consistent cw res = Inr True"
proof (induction n arbitrary: a res a')
  case 0
  then show ?case by simp
next
  case (Suc n)
  show ?case
  proof (cases "assignment_complete cw a")
    case True
    with Suc.prems show ?thesis by auto
  next
    case False
    with Suc.prems obtain var vals where
      run: "backtrack_loop (\<lambda>a. backtrack n cw d a) cw var vals a = Some (Inr (Some res, a'))"
      by (auto split: sum.splits option.splits)
    show ?thesis
      by (rule backtrack_loop_result[OF _ run]) (rule Suc.IH)
  qed
qed

lemma consistent_empty: "consistent cw [] = Inr True"
  by (simp add: consistent_def)

lemma solve_sound:
  assumes "solve n cw d = Some (Inr (Some a, d'))"
  shows "assignment_complete cw a \<and> consistent cw a = Inr True"
proof -
  from assms obtain d2 a' where "backtrack n cw d2 [] = Some (Inr (Some a, a'))"
    by (auto simp: solve_def split: option.splits sum.splits)
  from backtrack_sound[OF this consistent_empty] show ?thesis by blast
qed

section \<open>The recursion of the search is bounded\<close>

text \<open>
  No call removes a key that the assignment had when the call began, and every recursive
  call is made with one more slot assigned: the recursion is never deeper than the number
  of unassigned slots.
\<close>

lemma potential_variables_unassigned:
  "potential_variables cw d a vs acc = Inr ps \<Longrightarrow>
     fst ` set ps \<subseteq> fst ` set acc \<union> {v \<in> set vs. map_of a v = None}"
proof (induction vs arbitrary: acc)
  case Nil
  then show ?case by auto
next
  case (Cons v vs)
  show ?case
  proof (cases "map_of a v = None")
    case False
    with Cons.prems have "potential_variables cw d a vs acc = Inr ps" by simp
    from Cons.IH[OF this] show ?thesis by auto
  next
    case True
    show ?thesis
    proof (cases "map_of d v")
      case None
      with True Cons.prems show ?thesis by simp
    next
      case (Some ws)
      with True Cons.prems
      have "potential_variables cw d a vs (acc @ [(v, length ws, length (neighbors cw v))]) = Inr ps"
        by simp
      from Cons.IH[OF this] True show ?thesis by auto
    qed
  qed
qed

lemma select_unassigned_variable_Some:
  assumes "select_unassigned_variable cw d a = Inr (Some v)"
  shows "v \<in> set (variables cw) \<and> map_of a v = None"
proof -
  from assms obtain ps where ps: "potential_variables cw d a (variables cw) [] = Inr ps"
    and ne: "ps \<noteq> []" and v: "v = fst (hd (sort_key sort_key_of ps))"
    by (auto simp: select_unassigned_variable_def split: sum.splits if_splits)
  from hd_sort_key_least[OF ne, of sort_key_of] v have "v \<in> fst ` set ps" by auto
  with potential_variables_unassigned[OF ps] show ?thesis by auto
qed

lemma keys_update: "fst ` set (AList.update k v al) = insert k (fst ` set al)"
  using update_keys[of k v al] by (auto simp flip: set_map)

lemma keys_delete: "fst ` set (AList.delete k al) = fst ` set al - {k}"
  using delete_keys[of k al] by (auto simp flip: set_map)

lemma backtrack_loop_keys:
  assumes f: "\<And>a1 r a2. f a1 = Some (Inr (r, a2)) \<Longrightarrow> fst ` set a1 \<subseteq> fst ` set a2"
  shows "backtrack_loop f cw var vals a = Some (Inr (r, a')) \<Longrightarrow>
     fst ` set a - {var} \<subseteq> fst ` set a'"
proof (induction vals arbitrary: a)
  case Nil
  then show ?case by auto
next
  case (Cons v vals)
  let ?a1 = "AList.update var v a"
  show ?case
  proof (cases "consistent cw ?a1")
    case (Inl e)
    with Cons.prems show ?thesis by (simp add: Let_def)
  next
    case ok: (Inr ok)
    show ?thesis
    proof (cases ok)
      case False
      with ok Cons.prems
      have "backtrack_loop f cw var vals (AList.delete var ?a1) = Some (Inr (r, a'))"
        by (simp add: Let_def)
      from Cons.IH[OF this] show ?thesis unfolding keys_update keys_delete by blast
    next
      case True
      show ?thesis
      proof (cases "f ?a1")
        case None
        with ok True Cons.prems show ?thesis by (simp add: Let_def)
      next
        case (Some res)
        show ?thesis
        proof (cases res)
          case (Inl e)
          with ok True Some Cons.prems show ?thesis by (simp add: Let_def)
        next
          case (Inr pr)
          obtain result a2 where pr: "pr = (result, a2)" by (cases pr)
          from Some Inr pr have "fst ` set ?a1 \<subseteq> fst ` set a2" by (intro f) simp
          then have sub: "fst ` set a \<subseteq> fst ` set a2" by (auto simp: keys_update)
          show ?thesis
          proof (cases "truthy result")
            case t: True
            with ok True Some Inr pr Cons.prems have "a2 = a'" by (simp add: Let_def)
            with sub show ?thesis by blast
          next
            case t: False
            with ok True Some Inr pr Cons.prems
            have "backtrack_loop f cw var vals a2 = Some (Inr (r, a'))" by (simp add: Let_def)
            from Cons.IH[OF this] sub show ?thesis by blast
          qed
        qed
      qed
    qed
  qed
qed

lemma backtrack_keys:
  "backtrack n cw d a = Some (Inr (r, a')) \<Longrightarrow> fst ` set a \<subseteq> fst ` set a'"
proof (induction n arbitrary: a r a')
  case 0
  then show ?case by simp
next
  case (Suc n)
  show ?case
  proof (cases "assignment_complete cw a")
    case True
    with Suc.prems show ?thesis by simp
  next
    case False
    with Suc.prems obtain var vals where
      sel: "select_unassigned_variable cw d a = Inr (Some var)" and
      run: "backtrack_loop (\<lambda>a. backtrack n cw d a) cw var vals a = Some (Inr (r, a'))"
      by (auto split: sum.splits option.splits)
    from select_unassigned_variable_Some[OF sel] have "var \<notin> fst ` set a"
      by (simp add: map_of_eq_None_iff)
    moreover have "fst ` set a - {var} \<subseteq> fst ` set a'"
      by (rule backtrack_loop_keys[OF _ run]) (rule Suc.IH)
    ultimately show ?thesis by auto
  qed
qed

lemma backtrack_loop_returns:
  assumes total: "\<And>a1. insert var K \<subseteq> fst ` set a1 \<Longrightarrow> \<exists>r. f a1 = Some r"
    and keys: "\<And>a1 r a2. f a1 = Some (Inr (r, a2)) \<Longrightarrow> fst ` set a1 \<subseteq> fst ` set a2"
    and var: "var \<notin> K"
  shows "K \<subseteq> fst ` set a \<Longrightarrow> \<exists>r. backtrack_loop f cw var vals a = Some r"
proof (induction vals arbitrary: a)
  case Nil
  show ?case by simp
next
  case (Cons v vals)
  let ?a1 = "AList.update var v a"
  have k1: "insert var K \<subseteq> fst ` set ?a1" using Cons.prems by (auto simp: keys_update)
  show ?case
  proof (cases "consistent cw ?a1")
    case (Inl e)
    then show ?thesis by (simp add: Let_def)
  next
    case ok: (Inr ok)
    show ?thesis
    proof (cases ok)
      case False
      have "K \<subseteq> fst ` set (AList.delete var ?a1)"
        using Cons.prems var by (auto simp: keys_update keys_delete)
      from Cons.IH[OF this] ok False show ?thesis by (simp add: Let_def)
    next
      case True
      from total[OF k1] obtain res where res: "f ?a1 = Some res" by blast
      show ?thesis
      proof (cases res)
        case (Inl e)
        with ok True res show ?thesis by (simp add: Let_def)
      next
        case (Inr pr)
        obtain result a2 where pr: "pr = (result, a2)" by (cases pr)
        from res Inr pr have "fst ` set ?a1 \<subseteq> fst ` set a2" by (intro keys) simp
        with k1 have "K \<subseteq> fst ` set a2" by auto
        from Cons.IH[OF this] ok True res Inr pr show ?thesis by (simp add: Let_def)
      qed
    qed
  qed
qed

lemma backtrack_returns:
  "card (set (variables cw) - fst ` set a) < n \<Longrightarrow> \<exists>r. backtrack n cw d a = Some r"
proof (induction n arbitrary: a)
  case 0
  then show ?case by simp
next
  case (Suc n)
  show ?case
  proof (cases "assignment_complete cw a")
    case True
    then show ?thesis by simp
  next
    case False
    show ?thesis
    proof (cases "select_unassigned_variable cw d a")
      case (Inl e)
      with False show ?thesis by simp
    next
      case (Inr choice)
      show ?thesis
      proof (cases choice)
        case None
        with False Inr show ?thesis by simp
      next
        case (Some var)
        with Inr have sel: "select_unassigned_variable cw d a = Inr (Some var)" by simp
        from select_unassigned_variable_Some[OF sel]
        have var: "var \<in> set (variables cw)" "var \<notin> fst ` set a"
          by (simp_all add: map_of_eq_None_iff)
        show ?thesis
        proof (cases "order_domain_values cw d var a")
          case (Inl e)
          with False sel show ?thesis by simp
        next
          case vals: (Inr vals)
          have total: "\<exists>r. backtrack n cw d a1 = Some r"
            if "insert var (fst ` set a) \<subseteq> fst ` set a1" for a1
          proof -
            have "set (variables cw) - fst ` set a1
                    \<subset> set (variables cw) - fst ` set a"
              using that var by auto
            then have "card (set (variables cw) - fst ` set a1)
                    < card (set (variables cw) - fst ` set a)"
              by (intro psubset_card_mono) auto
            with Suc.prems have "card (set (variables cw) - fst ` set a1) < n" by simp
            then show ?thesis by (rule Suc.IH)
          qed
          have "\<exists>r. backtrack_loop (\<lambda>a. backtrack n cw d a) cw var vals a = Some r"
            by (rule backtrack_loop_returns[where K = "fst ` set a"])
               (use total backtrack_keys var in auto)
          with False sel vals show ?thesis by simp
        qed
      qed
    qed
  qed
qed

lemma solve_returns:
  assumes "length (variables cw) < n"
  shows "\<exists>r. solve n cw d = Some r"
proof -
  obtain r1 where r1: "ac3 cw (enforce_node_consistency d) None = Some r1"
    unfolding ac3_def using ac3_loop_returns by blast
  show ?thesis
  proof (cases r1)
    case (Inl e)
    with r1 show ?thesis by (simp add: solve_def)
  next
    case (Inr p)
    obtain b d2 where p: "p = (b, d2)" by (cases p)
    have "card (set (variables cw) - fst ` set ([] :: assignment)) \<le> length (variables cw)"
      by (simp add: card_length)
    with assms have "card (set (variables cw) - fst ` set ([] :: assignment)) < n" by simp
    from backtrack_returns[OF this] obtain r2 where "backtrack n cw d2 [] = Some r2" by blast
    with r1 Inr p show ?thesis by (cases r2) (auto simp: solve_def)
  qed
qed

end
